theory Spec2Isabelle
  imports Main
begin

unbundle bit_operations_syntax

section \<open>Characters and the regular expressions of the mode\<close>

text \<open>
  A line is a \<^typ>\<open>string\<close>: the code units of the JavaScript string, restricted to the
  8-bit range of \<^typ>\<open>char\<close>. Each regular expression of \<^verbatim>\<open>hypermd.ts\<close> is
  transcribed as a function on the text it is applied to: a \<^verbatim>\<open>.test\<close> as a predicate, a
  \<^verbatim>\<open>stream.match\<close> as the length of the match (\<open>None\<close> when there is none). All of
  them are anchored at \<^verbatim>\<open>^\<close> except the search for an unescaped dollar sign.
\<close>

definition tab :: char where
  "tab = CHR 0x09"

definition backslash :: char where
  "backslash = CHR 0x5C"

definition dquote :: char where
  "dquote = CHR 0x22"

definition backtick :: char where
  "backtick = CHR 0x60"

text \<open>The class \<^verbatim>\<open>\s\<close> below code unit 256: TAB, LF, VT, FF, CR, space and NBSP.\<close>

definition is_space :: "char \<Rightarrow> bool" where
  "is_space c = (c \<in> set [CHR 0x09, CHR 0x0A, CHR 0x0B, CHR 0x0C, CHR 0x0D, CHR 0x20, CHR 0xA0])"

text \<open>The class \<^verbatim>\<open>[0-9]\<close>.\<close>

definition is_digit :: "char \<Rightarrow> bool" where
  "is_digit c = (c \<in> set ''0123456789'')"

text \<open>The class \<^verbatim>\<open>\w\<close>.\<close>

definition is_word :: "char \<Rightarrow> bool" where
  "is_word c =
     (c \<in> set ''abcdefghijklmnopqrstuvwxyzABCDEFGHIJKLMNOPQRSTUVWXYZ0123456789_'')"

text \<open>The dot: every character but a line terminator.\<close>

definition is_dot :: "char \<Rightarrow> bool" where
  "is_dot c = (c \<notin> set [CHR 0x0A, CHR 0x0D])"

text \<open>The length of the longest prefix of characters satisfying \<open>P\<close>: a greedy class run.\<close>

definition run :: "(char \<Rightarrow> bool) \<Rightarrow> string \<Rightarrow> nat" where
  "run P s = length (takeWhile P s)"

text \<open>\<^verbatim>\<open>possibleTokenChars\<close>: the characters that could form a token.\<close>

definition possibleTokenChars :: string where
  "possibleTokenChars =
     [backtick, backslash] @ ''[]()<>_*~$|^@:!#+'' @ [dquote]"

text \<open>\<^verbatim>\<open>meanlessCharsRE\<close>: one or more characters outside \<^const>\<open>possibleTokenChars\<close>.\<close>

definition meanlessCharsRE :: "string \<Rightarrow> nat option" where
  "meanlessCharsRE s =
     (let n = run (\<lambda>c. c \<notin> set possibleTokenChars) s
      in if n = 0 then None else Some n)"

text \<open>\<^verbatim>\<open>listRE = /^\s*(?:[*\-+]|[0-9]+([.)]))\s+/\<close>.\<close>

definition listRE :: "string \<Rightarrow> nat option" where
  "listRE s =
     (let a = run is_space s;
          r = drop a s;
          d = run is_digit r;
          bullet =
            (case r of
               [] \<Rightarrow> None
             | c # _ \<Rightarrow>
                 if c \<in> set ''*-+'' then Some 1
                 else if d = 0 then None
                 else (case drop d r of
                         [] \<Rightarrow> None
                       | e # _ \<Rightarrow> if e \<in> set ''.)'' then Some (d + 1) else None))
      in case bullet of
           None \<Rightarrow> None
         | Some b \<Rightarrow>
             (let w = run is_space (drop b r)
              in if w = 0 then None else Some (a + b + w)))"

text \<open>
  \<^verbatim>\<open>tableTitleSepRE = /^\s*\|?(?:\s*\:?\s*\-+\s*\:?\s*\|)*\s*\:?\s*\-+\s*\:?\s*\|?\s*$/\<close>,
  only ever used with \<^verbatim>\<open>.test\<close>. A cell is \<^verbatim>\<open>\s*\:?\s*\-+\s*\:?\s*\<close>; the line is
  optional white space, an optional pipe, one or more cells separated by pipes, an optional
  pipe and white space. \<open>sepCell\<close> reads one cell and returns what follows it.
\<close>

definition sepCell :: "string \<Rightarrow> string option" where
  "sepCell s =
     (let s1 = dropWhile is_space s;
          s2 = (case s1 of [] \<Rightarrow> s1 | c # r \<Rightarrow> if c = CHR '':'' then r else s1);
          s3 = dropWhile is_space s2;
          s4 = dropWhile (\<lambda>c. c = CHR ''-'') s3;
          s5 = dropWhile is_space s4;
          s6 = (case s5 of [] \<Rightarrow> s5 | c # r \<Rightarrow> if c = CHR '':'' then r else s5)
      in if length s4 = length s3 then None else Some (dropWhile is_space s6))"

lemma sepCell_length: "sepCell s = Some r \<Longrightarrow> length r < length s"
proof -
  have dw: "length (dropWhile P xs) \<le> length xs" for P and xs :: string
    by (induction xs) auto
  have colon: "length (case xs of [] \<Rightarrow> xs | c # r \<Rightarrow> if c = CHR '':'' then r else xs) \<le> length xs"
    for xs :: string
    by (cases xs) auto
  define s1 where "s1 = dropWhile is_space s"
  define s2 where "s2 = (case s1 of [] \<Rightarrow> s1 | c # r \<Rightarrow> if c = CHR '':'' then r else s1)"
  define s3 where "s3 = dropWhile is_space s2"
  define s4 where "s4 = dropWhile (\<lambda>c. c = CHR ''-'') s3"
  define s5 where "s5 = dropWhile is_space s4"
  define s6 where "s6 = (case s5 of [] \<Rightarrow> s5 | c # r \<Rightarrow> if c = CHR '':'' then r else s5)"
  assume a: "sepCell s = Some r"
  have "sepCell s = (if length s4 = length s3 then None else Some (dropWhile is_space s6))"
    unfolding sepCell_def Let_def s6_def s5_def s4_def s3_def s2_def s1_def by (rule refl)
  with a have r: "r = dropWhile is_space s6" and ne: "length s4 \<noteq> length s3"
    by (auto split: if_splits)
  have "length s4 \<le> length s3"
    unfolding s4_def by (rule dw)
  with ne have "length s4 < length s3"
    by simp
  moreover have "length s3 \<le> length s2" "length s5 \<le> length s4" "length r \<le> length s6"
    "length s1 \<le> length s"
    unfolding s3_def s5_def r s1_def by (rule dw)+
  moreover have "length s2 \<le> length s1" "length s6 \<le> length s5"
    unfolding s2_def s6_def by (rule colon)+
  ultimately show ?thesis
    by linarith
qed

function sepCells :: "string \<Rightarrow> bool" where
  "sepCells s =
     (case sepCell s of
        None \<Rightarrow> False
      | Some [] \<Rightarrow> True
      | Some (c # r) \<Rightarrow>
          if c = CHR ''|'' then (dropWhile is_space r = [] \<or> sepCells r) else False)"
  by pat_completeness auto
termination
  by (relation "measure length") (auto dest: sepCell_length)

declare sepCells.simps [simp del]

definition tableTitleSepRE :: "string \<Rightarrow> bool" where
  "tableTitleSepRE s =
     (let s1 = dropWhile is_space s;
          s2 = (case s1 of [] \<Rightarrow> s1 | c # r \<Rightarrow> if c = CHR ''|'' then r else s1)
      in sepCells s2)"

text \<open>\<^verbatim>\<open>/^(?:[^\$\\]+|\\.)+/\<close>: math content, a run of plain or escaped characters.\<close>

fun mathRun :: "string \<Rightarrow> nat" where
  "mathRun [] = 0"
| "mathRun [c] = (if c = backslash \<or> c = CHR ''$'' then 0 else 1)"
| "mathRun (c # d # r) =
     (if c = backslash then (if is_dot d then 2 + mathRun r else 0)
      else if c = CHR ''$'' then 0
      else 1 + mathRun (d # r))"

definition mathContentRE :: "string \<Rightarrow> nat option" where
  "mathContentRE s = (let n = mathRun s in if n = 0 then None else Some n)"

text \<open>\<^verbatim>\<open>/^```\s*$/\<close> and \<^verbatim>\<open>/^```/\<close>.\<close>

definition fenceEndRE :: "string \<Rightarrow> nat option" where
  "fenceEndRE s =
     (if take 3 s = [backtick, backtick, backtick] \<and> list_all is_space (drop 3 s)
      then Some (length s) else None)"

definition fenceRE :: "string \<Rightarrow> nat option" where
  "fenceRE s = (if take 3 s = [backtick, backtick, backtick] then Some 3 else None)"

text \<open>\<^verbatim>\<open>/^(?:-{3,}|={3,})$/\<close>, tested on the whole line.\<close>

definition headerLineRE :: "string \<Rightarrow> bool" where
  "headerLineRE s =
     (3 \<le> length s \<and> (list_all (\<lambda>c. c = CHR ''-'') s \<or> list_all (\<lambda>c. c = CHR ''='') s))"

text \<open>\<^verbatim>\<open>/^\>\s*/\<close> and \<^verbatim>\<open>/^\s*\>\s*/\<close>.\<close>

definition quoteRE :: "string \<Rightarrow> nat option" where
  "quoteRE s =
     (case s of
        [] \<Rightarrow> None
      | c # r \<Rightarrow> if c = CHR ''>'' then Some (1 + run is_space r) else None)"

definition quoteMoreRE :: "string \<Rightarrow> nat option" where
  "quoteMoreRE s =
     (let a = run is_space s
      in case quoteRE (drop a s) of None \<Rightarrow> None | Some n \<Rightarrow> Some (a + n))"

text \<open>\<^verbatim>\<open>/^(#+)(?:\s|$)/\<close>.\<close>

definition headerRE :: "string \<Rightarrow> nat option" where
  "headerRE s =
     (let h = run (\<lambda>c. c = CHR ''#'') s
      in if h = 0 then None
         else (case drop h s of
                 [] \<Rightarrow> Some h
               | c # _ \<Rightarrow> if is_space c then Some (h + 1) else None))"

text \<open>\<^verbatim>\<open>/^(?:\:\s*)?-+(?:\s*\:)?/\<close>: one cell of a title separator line.\<close>

definition tableDashRE :: "string \<Rightarrow> nat option" where
  "tableDashRE s =
     (let p = (case s of c # r \<Rightarrow> if c = CHR '':'' then 1 + run is_space r else 0 | [] \<Rightarrow> 0);
          d = run (\<lambda>c. c = CHR ''-'') (drop p s);
          w = run is_space (drop (p + d) s)
      in if d = 0 then None
         else (case drop (p + d + w) s of
                 [] \<Rightarrow> Some (p + d)
               | c # _ \<Rightarrow> if c = CHR '':'' then Some (p + d + w + 1) else Some (p + d)))"

text \<open>\<^verbatim>\<open>/^`[^`]*`?/\<close>: inline code.\<close>

definition inlineCodeRE :: "string \<Rightarrow> nat option" where
  "inlineCodeRE s =
     (case s of
        [] \<Rightarrow> None
      | c # r \<Rightarrow>
          if c = backtick then
            (let k = run (\<lambda>x. x \<noteq> backtick) r
             in if k < length r then Some (k + 2) else Some (k + 1))
          else None)"

text \<open>\<^verbatim>\<open>/^\${1,2}/\<close>.\<close>

definition dollarsRE :: "string \<Rightarrow> nat option" where
  "dollarsRE s =
     (let n = run (\<lambda>c. c = CHR ''$'') s
      in if n = 0 then None else Some (min n 2))"

text \<open>\<^verbatim>\<open>/[^\\]\$/\<close>, searched anywhere in the text: a dollar sign after a non-backslash.\<close>

fun dollarLaterRE :: "string \<Rightarrow> bool" where
  "dollarLaterRE (a # b # r) =
     (if a = backslash then dollarLaterRE (b # r)
      else if b = CHR ''$'' then True
      else dollarLaterRE (b # r))"
| "dollarLaterRE _ = False"

text \<open>\<^verbatim>\<open>/^\s*\|/\<close>, tested on the whole line.\<close>

definition leadingPipeRE :: "string \<Rightarrow> bool" where
  "leadingPipeRE s = (case dropWhile is_space s of [] \<Rightarrow> False | c # _ \<Rightarrow> c = CHR ''|'')"

text \<open>
  \<^verbatim>\<open>/^\[([^\]]+)\]/\<close>, then \<^verbatim>\<open>/^(?:[^\]]+)\]\:/\<close> and
  \<^verbatim>\<open>/^(?:[^\]]+)\](?:[^\[\(]|$)/\<close>, which are applied after the opening bracket.
\<close>

definition bracketRE :: "string \<Rightarrow> nat option" where
  "bracketRE s =
     (case s of
        [] \<Rightarrow> None
      | c # r \<Rightarrow>
          if c = CHR ''['' then
            (let k = run (\<lambda>x. x \<noteq> CHR '']'') r
             in if k = 0 \<or> length r \<le> k then None else Some (k + 2))
          else None)"

definition footnoteNameRE :: "string \<Rightarrow> nat option" where
  "footnoteNameRE s =
     (let k = run (\<lambda>x. x \<noteq> CHR '']'') s
      in if k = 0 then None
         else (case drop k s of
                 a # b # _ \<Rightarrow> if b = CHR '':'' then Some (k + 2) else None
               | _ \<Rightarrow> None))"

definition bareLinkRE :: "string \<Rightarrow> nat option" where
  "bareLinkRE s =
     (let k = run (\<lambda>x. x \<noteq> CHR '']'') s
      in if k = 0 then None
         else (case drop k s of
                 [] \<Rightarrow> None
               | [a] \<Rightarrow> Some (k + 1)
               | a # b # _ \<Rightarrow> if b \<in> set ''[('' then None else Some (k + 2)))"

text \<open>\<^verbatim>\<open>/^"(?:[^"\\]|\\.)*"/\<close>: a quoted title inside a link URL.\<close>

fun quotedTail :: "string \<Rightarrow> nat option" where
  "quotedTail [] = None"
| "quotedTail [c] = (if c = dquote then Some 1 else None)"
| "quotedTail (c # d # r) =
     (if c = dquote then Some 1
      else if c = backslash then
        (if is_dot d then map_option (\<lambda>n. n + 2) (quotedTail r) else None)
      else map_option Suc (quotedTail (d # r)))"

definition quotedRE :: "string \<Rightarrow> nat option" where
  "quotedRE s =
     (case s of
        [] \<Rightarrow> None
      | c # r \<Rightarrow> if c = dquote then map_option Suc (quotedTail r) else None)"

text \<open>\<^verbatim>\<open>/^\\(?=.)/\<close>: a backslash with a character after it.\<close>

definition escapeRE :: "string \<Rightarrow> nat option" where
  "escapeRE s =
     (case s of
        a # b # _ \<Rightarrow> if a = backslash \<and> is_dot b then Some 1 else None
      | _ \<Rightarrow> None)"

text \<open>The decimal digits of a number, as string concatenation prints them.\<close>

fun show_nat :: "nat \<Rightarrow> string" where
  "show_nat n =
     (if n < 10 then [''0123456789'' ! n]
      else show_nat (n div 10) @ [''0123456789'' ! (n mod 10)])"

declare show_nat.simps [simp del]

section \<open>The line stream of the host\<close>

text \<open>
  CodeMirror's \<^verbatim>\<open>StringStream\<close> is supplied by the editor, not by this repository. The
  record holds what the mode reads of it: the text of the line, the scan position, the tab
  size of the editor, the number of the line (\<^verbatim>\<open>lineOracle.line\<close>) and the text of the
  following line (\<^verbatim>\<open>lookAhead(1)\<close>, \<open>None\<close> when there is none). The operations follow
  CodeMirror's definitions. The tab size is an option of the editor; the configuration
  that the repository suggests sets it to 4.
\<close>

record stream =
  string :: string
  pos :: nat
  tabSize :: nat
  line :: nat
  lookAhead1 :: "string option"

definition rest :: "stream \<Rightarrow> string" where
  "rest strm = drop (pos strm) (string strm)"

definition eol :: "stream \<Rightarrow> bool" where
  "eol strm = (length (string strm) \<le> pos strm)"

definition peek :: "stream \<Rightarrow> char option" where
  "peek strm = (case rest strm of [] \<Rightarrow> None | c # _ \<Rightarrow> Some c)"

definition advance :: "nat \<Rightarrow> stream \<Rightarrow> stream" where
  "advance n strm = strm\<lparr>pos := pos strm + n\<rparr>"

text \<open>\<^verbatim>\<open>next()\<close> consumes one character; at the end of the line it consumes nothing.\<close>

definition next_ch :: "stream \<Rightarrow> char option \<times> stream" where
  "next_ch strm =
     (case rest strm of [] \<Rightarrow> (None, strm) | c # _ \<Rightarrow> (Some c, advance 1 strm))"

definition skip1 :: "stream \<Rightarrow> stream" where
  "skip1 strm = snd (next_ch strm)"

definition eat :: "char \<Rightarrow> stream \<Rightarrow> stream option" where
  "eat c strm = (if peek strm = Some c then Some (advance 1 strm) else None)"

definition skipToEnd :: "stream \<Rightarrow> stream" where
  "skipToEnd strm = strm\<lparr>pos := length (string strm)\<rparr>"

text \<open>\<^verbatim>\<open>match\<close> with a string pattern, and with a regular expression (consuming).\<close>

definition looking_at :: "string \<Rightarrow> stream \<Rightarrow> bool" where
  "looking_at pat strm = (take (length pat) (rest strm) = pat)"

definition match_str :: "string \<Rightarrow> stream \<Rightarrow> stream option" where
  "match_str pat strm =
     (if looking_at pat strm then Some (advance (length pat) strm) else None)"

definition match_re :: "(string \<Rightarrow> nat option) \<Rightarrow> stream \<Rightarrow> stream option" where
  "match_re re strm = map_option (\<lambda>n. advance n strm) (re (rest strm))"

text \<open>\<^verbatim>\<open>charAt\<close>: the empty string outside the text.\<close>

definition charAt :: "string \<Rightarrow> int \<Rightarrow> string" where
  "charAt s i = (if 0 \<le> i \<and> i < int (length s) then [s ! nat i] else [])"

text \<open>
  \<^verbatim>\<open>indentation()\<close> is \<^verbatim>\<open>countColumn(string, null, tabSize)\<close>: the column reached
  by the leading white space, a tab moving to the next multiple of the tab size.
\<close>

fun countColumn :: "nat \<Rightarrow> nat \<Rightarrow> string \<Rightarrow> nat" where
  "countColumn ts n [] = n"
| "countColumn ts n (c # cs) =
     (if c = tab then countColumn ts (n + (ts - n mod ts)) cs
      else countColumn ts (n + 1) cs)"

definition indentation :: "stream \<Rightarrow> int" where
  "indentation strm = int (countColumn (tabSize strm) 0 (takeWhile is_space (string strm)))"

section \<open>The state of the mode\<close>

datatype insideValues = nothing | math | listSpace | codeFence | tableTitleSep

text \<open>
  \<^verbatim>\<open>extra\<close> is \<^verbatim>\<open>null\<close>, the index into \<^verbatim>\<open>listSpaceStack\<close>, or the math
  delimiter. \<^verbatim>\<open>inside\<close> is one of \<^verbatim>\<open>insideValues\<close> or \<^verbatim>\<open>null\<close>;
  \<^verbatim>\<open>table\<close> is \<^verbatim>\<open>null\<close> or the table identifier; \<^verbatim>\<open>combineTokens\<close> is the
  optional field that the overlay addon reads, \<open>None\<close> when it is null or absent.
\<close>

datatype extra = ENull | ENum nat | EStr string

text \<open>
  \<^verbatim>\<open>listSpaceStack\<close> is an array. The tokenizer is modelled on states that hold its
  elements (\<open>state\<close>); where aliasing matters, a state object holds the address of its
  array in a store (\<open>state_obj\<close>, below).
\<close>

record 'stk state_fields =
  atBeginning :: bool
  quoteLevel :: nat
  nstyle :: int
  table :: "string option"
  tableCol :: nat
  tableRow :: nat
  inside :: "insideValues option"
  listSpaceStack :: 'stk
  prevLineIsEmpty :: bool
  extra :: extra
  combineTokens :: "bool option"

type_synonym state = "int list state_fields"

text \<open>The values of \<^verbatim>\<open>nstyleValues\<close>.\<close>

definition style_mask :: int where "style_mask = 0xFF"
definition DEL :: int where "DEL = 1"
definition EM :: int where "EM = 2"
definition STRONG :: int where "STRONG = 4"
definition ESCAPE :: int where "ESCAPE = 8"
definition link_mask :: int where "link_mask = 0xFF00"
definition LINK :: int where "LINK = 0x100"
definition LINK_URL :: int where "LINK_URL = 0x200"
definition BARELINK :: int where "BARELINK = 0x300"
definition FOOTREF :: int where "FOOTREF = 0x400"
definition FOOTREF_BEGIN :: int where "FOOTREF_BEGIN = 0x500"
definition FOOTNOTE_NAME :: int where "FOOTNOTE_NAME = 0x600"

definition nstyleStandalone :: "int list" where
  "nstyleStandalone = [DEL, EM, STRONG, ESCAPE]"

text \<open>\<^verbatim>\<open>HMDStyles\<close>: the style strings; a missing key is \<open>None\<close>.\<close>

definition HMDStyles :: "int \<Rightarrow> string option" where
  "HMDStyles v =
     (if v = ESCAPE then Some ''hmd-escape ''
      else if v = LINK then Some ''hmd-link ''
      else if v = LINK_URL then Some ''hmd-link-url ''
      else if v = BARELINK then Some ''hmd-barelink ''
      else if v = FOOTREF then Some ''hmd-barelink hmd-footref ''
      else if v = FOOTREF_BEGIN then Some ''hmd-barelink hmd-footref hmd-footref-lead ''
      else if v = FOOTNOTE_NAME then Some ''hmd-footnote line-HyperMD-footnote ''
      else None)"

definition startState :: state where
  "startState =
     \<lparr>atBeginning = True, quoteLevel = 0, nstyle = 0, table = None, tableCol = 0,
      tableRow = 0, inside = Some nothing, listSpaceStack = [], prevLineIsEmpty = False,
      extra = ENull, combineTokens = None\<rparr>"

text \<open>
  \<^verbatim>\<open>copyState\<close> builds a new object from the ten fields that \<^verbatim>\<open>startState\<close>
  defines; the new object has no \<^verbatim>\<open>combineTokens\<close>.
\<close>

definition copyState :: "state \<Rightarrow> state" where
  "copyState s =
     \<lparr>atBeginning = atBeginning s, quoteLevel = quoteLevel s, nstyle = nstyle s,
      table = table s, tableCol = tableCol s, tableRow = tableRow s, inside = inside s,
      listSpaceStack = listSpaceStack s, prevLineIsEmpty = prevLineIsEmpty s,
      extra = extra s, combineTokens = None\<rparr>"

text \<open>
  The same function on objects. A store is the list of the arrays allocated so far, an
  address is an index into it; \<^verbatim>\<open>slice()\<close> allocates a new array with the elements of
  the old one. \<open>load\<close> reads an object together with its array, and \<open>write_stack\<close> is
  any mutation of the array of an object in place (a push, a splice).
\<close>

type_synonym store = "int list list"

type_synonym state_obj = "nat state_fields"

definition copyState_obj :: "store \<Rightarrow> state_obj \<Rightarrow> state_obj \<times> store" where
  "copyState_obj h s =
     (\<lparr>atBeginning = atBeginning s, quoteLevel = quoteLevel s, nstyle = nstyle s,
       table = table s, tableCol = tableCol s, tableRow = tableRow s, inside = inside s,
       listSpaceStack = length h, prevLineIsEmpty = prevLineIsEmpty s,
       extra = extra s, combineTokens = None\<rparr>,
      h @ [h ! listSpaceStack s])"

definition load :: "store \<Rightarrow> state_obj \<Rightarrow> state" where
  "load h s =
     \<lparr>atBeginning = atBeginning s, quoteLevel = quoteLevel s, nstyle = nstyle s,
      table = table s, tableCol = tableCol s, tableRow = tableRow s, inside = inside s,
      listSpaceStack = h ! listSpaceStack s, prevLineIsEmpty = prevLineIsEmpty s,
      extra = extra s, combineTokens = combineTokens s\<rparr>"

definition write_stack :: "store \<Rightarrow> state_obj \<Rightarrow> int list \<Rightarrow> store" where
  "write_stack h s v = h[listSpaceStack s := v]"

text \<open>An object with the scalar fields of the start state and its array at address \<open>a\<close>.\<close>

definition start_obj :: "nat \<Rightarrow> state_obj" where
  "start_obj a =
     \<lparr>atBeginning = True, quoteLevel = 0, nstyle = 0, table = None, tableCol = 0,
      tableRow = 0, inside = Some nothing, listSpaceStack = a, prevLineIsEmpty = False,
      extra = ENull, combineTokens = None\<rparr>"

definition codeblock_bg :: string where
  "codeblock_bg = ''line-HyperMD-codeblock line-background-HyperMD-codeblock-bg''"

definition blankLine :: "state \<Rightarrow> string option \<times> state" where
  "blankLine s =
     (if inside s = Some codeFence then Some codeblock_bg else None,
      s\<lparr>atBeginning := True, prevLineIsEmpty := True, quoteLevel := 0,
        listSpaceStack := [], table := None, tableCol := 0, tableRow := 0, nstyle := 0\<rparr>)"

text \<open>The two axes of \<^verbatim>\<open>nstyle\<close>: the link state and the standalone style bits.\<close>

definition linkState :: "state \<Rightarrow> int" where
  "linkState s = nstyle s AND link_mask"

definition inlineStyleMask :: "state \<Rightarrow> int" where
  "inlineStyleMask s = nstyle s AND style_mask"

section \<open>The tokenizer\<close>

text \<open>
  A call of \<^verbatim>\<open>token\<close> returns the style string (\<open>None\<close> for \<^verbatim>\<open>null\<close>) and leaves
  the stream and the state updated. A stage of the function either returns or falls
  through to the next one.
\<close>

type_synonym result = "string option \<times> stream \<times> state"

datatype ('r, 'c) flow = Return 'r | Continue 'c

definition is_set :: "string option \<Rightarrow> bool" where
  "is_set t = (case t of None \<Rightarrow> False | Some x \<Rightarrow> x \<noteq> [])"

definition falsy :: "insideValues option \<Rightarrow> bool" where
  "falsy i = (i = None \<or> i = Some nothing)"

subsection \<open>Inside math and inside a code fence\<close>

text \<open>
  Inside math \<^verbatim>\<open>extra\<close> is the delimiter; \<^verbatim>\<open>match\<close> and \<^verbatim>\<open>.length\<close> of anything
  but a string are outside the model (\<open>None\<close>).
\<close>

definition token_math :: "nat \<Rightarrow> stream \<Rightarrow> state \<Rightarrow> result option" where
  "token_math start strm st =
     (case extra st of
        EStr d \<Rightarrow>
          (let tag = ''math math-'' @ show_nat (length d)
           in if (start = 0 \<or> charAt (string strm) (int start - 1) \<noteq> [backslash]) \<and>
                 looking_at d strm
              then Some (Some (''formatting formatting-math formatting-math-end '' @ tag),
                         advance (length d) strm, st\<lparr>inside := Some nothing\<rparr>)
              else Some (Some tag,
                         (case match_re mathContentRE strm of
                            Some strm' \<Rightarrow> strm'
                          | None \<Rightarrow> skip1 strm),
                         st))
      | _ \<Rightarrow> None)"

definition token_codeFence :: "nat \<Rightarrow> stream \<Rightarrow> state \<Rightarrow> result" where
  "token_codeFence start strm st0 =
     (let st = st0\<lparr>combineTokens := Some True\<rparr>
      in case (if start = 0 then match_re fenceEndRE strm else None) of
           Some strm' \<Rightarrow>
             (Some (codeblock_bg @ '' line-HyperMD-codeblock-end''), strm',
              st\<lparr>inside := Some nothing\<rparr>)
         | None \<Rightarrow> (Some codeblock_bg, skipToEnd strm, st))"

subsection \<open>The start of a line\<close>

lemma quoteMoreRE_length: "quoteMoreRE s = Some n \<Longrightarrow> 0 < n \<and> n \<le> length s"
proof -
  have tw: "length (takeWhile P xs) \<le> length xs" for P and xs :: string
    by (induction xs) auto
  assume a: "quoteMoreRE s = Some n"
  define k where "k = run is_space s"
  from a obtain m where m: "quoteRE (drop k s) = Some m" and n: "n = k + m"
    by (auto simp: quoteMoreRE_def Let_def k_def split: option.splits)
  from m obtain r where r: "drop k s = CHR ''>'' # r" and m': "m = 1 + run is_space r"
    by (auto simp: quoteRE_def split: list.splits if_splits)
  have "run is_space r \<le> length r"
    unfolding run_def by (rule tw)
  moreover have "length (drop k s) = Suc (length r)"
    by (simp add: r)
  ultimately show ?thesis
    using n m' by auto
qed

text \<open>\<^verbatim>\<open>while (stream.match(/^\s*\>\s*/)) quoteLevel++\<close>: what is consumed, and the count.\<close>

function quoteLoop :: "string \<Rightarrow> nat \<times> nat" where
  "quoteLoop s =
     (case quoteMoreRE s of
        None \<Rightarrow> (0, 0)
      | Some n \<Rightarrow> (let (k, q) = quoteLoop (drop n s) in (n + k, q + 1)))"
  by pat_completeness auto
termination
  by (relation "measure length") (auto dest: quoteMoreRE_length)

declare quoteLoop.simps [simp del]

text \<open>The loop that rebuilds \<^verbatim>\<open>listSpaceStack\<close>, from index \<open>i\<close> on.\<close>

fun rebuildLoop :: "int list \<Rightarrow> int \<Rightarrow> int list \<times> int" where
  "rebuildLoop [] ind = ([], ind)"
| "rebuildLoop (x # xs) ind =
     (if 0 < ind then (let (ys, ind') = rebuildLoop xs (ind - x) in (x # ys, ind'))
      else ([], ind))"

definition rebuildStack :: "int list \<Rightarrow> int \<Rightarrow> int list" where
  "rebuildStack stack indentation0 =
     (let (kept, ind) =
            (case stack of
               [] \<Rightarrow> ([], indentation0)
             | x # xs \<Rightarrow>
                 if x = 0 then (let (ys, i) = rebuildLoop xs indentation0 in (x # ys, i))
                 else rebuildLoop stack indentation0);
          pushed = (if 0 < ind then kept @ [ind] else kept)
      in if pushed = [] then [0] else pushed)"

definition quote_tag :: "nat \<Rightarrow> string" where
  "quote_tag q =
     ''formatting formatting-quote formatting-quote-'' @ show_nat q @
     '' quote quote-'' @ show_nat q @
     '' line-HyperMD-quote line-HyperMD-quote-'' @ show_nat q"

definition lineStart :: "stream \<Rightarrow> state \<Rightarrow> (result, state) flow" where
  "lineStart strm st0 =
     (let st1 = st0\<lparr>atBeginning := True\<rparr>;
          st2 =
            (if is_set (table st1) then
               (let s = st1\<lparr>tableCol := 0, tableRow := tableRow st1 + 1\<rparr>
                in if tableRow s = 1 \<and> tableTitleSepRE (string strm)
                   then s\<lparr>inside := Some tableTitleSep\<rparr>
                   else s\<lparr>inside := None\<rparr>)
             else st1);
          ind = indentation strm
      in case match_re fenceRE strm of
           Some strm' \<Rightarrow>
             Return (Some (codeblock_bg @ '' line-HyperMD-codeblock-begin''), strm',
                     st2\<lparr>combineTokens := Some True, inside := Some codeFence\<rparr>)
         | None \<Rightarrow>
             if listSpaceStack st2 = [] \<and> 4 \<le> ind then
               Return (Some ''line-HyperMD-codeblock line-background-HyperMD-codeblock-indented-bg'',
                       skipToEnd strm, st2)
             else if headerLineRE (string strm) \<and> \<not> prevLineIsEmpty st2 then
               Return (Some (''formatting line-HyperMD-header-line line-HyperMD-header-line-'' @
                             show_nat (if charAt (string strm) 0 = ''='' then 1 else 2)),
                       skipToEnd strm, st2)
             else
               (let st3 = st2\<lparr>prevLineIsEmpty := False\<rparr>
                in case match_re quoteRE strm of
                     Some strm' \<Rightarrow>
                       (let (k, q) = quoteLoop (rest strm')
                        in Return (Some (quote_tag (1 + q)), advance k strm',
                                   st3\<lparr>quoteLevel := 1 + q\<rparr>))
                   | None \<Rightarrow>
                       if quoteLevel st3 \<noteq> 0 then
                         Return (Some (''line-HyperMD-quote line-HyperMD-quote-'' @
                                       show_nat (quoteLevel st3)),
                                 skip1 strm, st3\<lparr>combineTokens := Some True\<rparr>)
                       else
                         (case match_re headerRE strm of
                            Some strm' \<Rightarrow>
                              Return (Some (''line-HyperMD-header line-HyperMD-header-'' @
                                            show_nat (run (\<lambda>c. c = CHR ''#'') (string strm))),
                                      strm', st3\<lparr>combineTokens := Some True\<rparr>)
                          | None \<Rightarrow>
                              if listSpaceStack st3 \<noteq> [] \<or> listRE (rest strm) \<noteq> None then
                                Continue (st3\<lparr>listSpaceStack := rebuildStack (listSpaceStack st3) ind,
                                              inside := Some listSpace, extra := ENum 0\<rparr>)
                              else Continue st3)))"

subsection \<open>Consuming the indentation of a list line\<close>

text \<open>
  \<^verbatim>\<open>while (indent_to_eat > 0)\<close>: the number of characters consumed and whether the
  indentation is corrupted. At the end of the line \<^verbatim>\<open>next()\<close> consumes nothing and
  returns \<^verbatim>\<open>undefined\<close>, which is neither a tab nor a space.
\<close>

fun eatIndent :: "int \<Rightarrow> string \<Rightarrow> nat \<times> bool" where
  "eatIndent n [] = (0, 0 < n)"
| "eatIndent n (c # cs) =
     (if 0 < n then
        (if c = tab then (let (k, b) = eatIndent (n - 4) cs in (Suc k, b))
         else if c = CHR '' '' then (let (k, b) = eatIndent (n - 1) cs in (Suc k, b))
         else (1, True))
      else (0, False))"

text \<open>
  \<^verbatim>\<open>listSpaceStack[extra]\<close>: the width to consume at an index, \<open>None\<close> when the
  index is \<^verbatim>\<open>null\<close> or beyond the stack (\<^verbatim>\<open>undefined\<close>, which is not greater than 0).
\<close>

definition indent_at :: "int list \<Rightarrow> nat option \<Rightarrow> int option" where
  "indent_at stack idx =
     (case idx of
        Some i \<Rightarrow> if i < length stack then Some (stack ! i) else None
      | None \<Rightarrow> None)"

text \<open>
  In this stage \<^verbatim>\<open>extra\<close> is the index of the level, or \<^verbatim>\<open>null\<close> (which counts as 0
  in arithmetic and indexes nothing); a string there is outside the model.
\<close>

definition token_listSpace :: "stream \<Rightarrow> state \<Rightarrow> result option" where
  "token_listSpace strm st =
     (case extra st of
        EStr _ \<Rightarrow> None
      | _ \<Rightarrow>
         (let stack = listSpaceStack st;
              listLevel = length stack;
              firstMet = (extra st = ENum 0);
              zero0 = (case stack of [] \<Rightarrow> False | x # _ \<Rightarrow> x = 0)
          in if firstMet \<and> zero0 \<and> listLevel = 1 then
               Some (Some ''line-HyperMD-list-line line-HyperMD-list-line-1'',
                     (case match_re listRE strm of Some strm' \<Rightarrow> strm' | None \<Rightarrow> skip1 strm),
                     st\<lparr>inside := None, extra := ENull, combineTokens := Some True\<rparr>)
             else
               (let virtual = (firstMet \<and> zero0);
                    idx = (case extra st of
                             ENum n \<Rightarrow> Some (if virtual then n + 1 else n)
                           | _ \<Rightarrow> None);
                    indent_to_eat = indent_at stack idx;
                    (k, corrupted) =
                      (case indent_to_eat of
                         Some n \<Rightarrow> eatIndent n (rest strm)
                       | None \<Rightarrow> (0, False));
                    num = (if corrupted then 0 else case idx of Some i \<Rightarrow> i | None \<Rightarrow> 0);
                    ans = (if virtual then ''hmd-list-indent-virtual '' else []) @
                          ''hmd-list-indent hmd-list-indent-'' @ show_nat (num + 1) @
                          (if firstMet
                           then '' line-HyperMD-list-line line-HyperMD-list-line-'' @
                                show_nat listLevel
                           else []) @
                          (if corrupted then '' hmd-list-indent-corrupted'' else []);
                    st1 = (if corrupted then st\<lparr>inside := None\<rparr> else st);
                    st2 = (if listLevel \<le> num + 1 then st1\<lparr>inside := None, extra := ENull\<rparr>
                           else st1\<lparr>extra := ENum (num + 1)\<rparr>)
                in Some (Some ans, advance k strm, st2\<lparr>combineTokens := Some True\<rparr>))))"

subsection \<open>Inline content\<close>

definition inline_tableSep :: "stream \<Rightarrow> state \<Rightarrow> (result, unit) flow" where
  "inline_tableSep strm st =
     (if inside st = Some tableTitleSep then
        (case match_re tableDashRE strm of
           Some strm' \<Rightarrow>
             Return (Some ''hmd-table-title-dash line-HyperMD-table-row line-HyperMD-table-rowsep '',
                     strm', st\<lparr>combineTokens := Some False\<rparr>)
         | None \<Rightarrow> Continue ())
      else Continue ())"

text \<open>
  The match of \<^verbatim>\<open>/^\${1,2}/\<close> consumes the dollar signs also when math does not open:
  the stages after it then start behind them.
\<close>

definition inline_math :: "nat \<Rightarrow> stream \<Rightarrow> state \<Rightarrow> (result, stream) flow" where
  "inline_math start strm st =
     (case dollarsRE (rest strm) of
        None \<Rightarrow> Continue strm
      | Some n \<Rightarrow>
          (let tmp = take n (rest strm)
           in if tmp = ''$$'' \<or> dollarLaterRE (drop (start + 1) (string strm)) then
                Return (Some (''formatting formatting-math formatting-math-begin math math-'' @
                              show_nat (length tmp)),
                        advance n strm,
                        st\<lparr>inside := Some math, extra := EStr tmp, combineTokens := Some False\<rparr>)
              else Continue (advance n strm)))"

definition sepNext :: "stream \<Rightarrow> bool" where
  "sepNext strm = (case lookAhead1 strm of None \<Rightarrow> False | Some l \<Rightarrow> tableTitleSepRE l)"

definition canMakeTable :: "state \<Rightarrow> bool" where
  "canMakeTable st = (nstyle st = 0 \<and> listSpaceStack st = [] \<and> falsy (inside st))"

definition inline_table :: "stream \<Rightarrow> state \<Rightarrow> (result, unit) flow" where
  "inline_table strm st =
     (if canMakeTable st then
        (case eat (CHR ''|'') strm of
           None \<Rightarrow> Continue ()
         | Some strm' \<Rightarrow>
             if \<not> is_set (table st) \<and> \<not> leadingPipeRE (string strm) \<and> \<not> sepNext strm then
               Return (None, strm', st)
             else
               (let st1 = (if is_set (table st) then st
                           else st\<lparr>table := Some (''T'' @ show_nat (line strm)), tableRow := 0\<rparr>);
                    ans1 = (if is_set (table st) then []
                            else ''line-HyperMD-table-title '' @
                                 (if sepNext strm then ''line-HyperMD-table-title-has_rowsep ''
                                  else []));
                    ans2 = ans1 @
                           (if tableCol st1 = 0 then
                              ''line-HyperMD-table_'' @
                              (case table st1 of Some x \<Rightarrow> x | None \<Rightarrow> ''null'') @ '' '' @
                              ''line-HyperMD-table-row line-HyperMD-table-row-'' @
                              show_nat (tableRow st1) @ '' ''
                            else []);
                    ans3 = ans2 @ ''hmd-table-sep hmd-table-sep-'' @ show_nat (tableCol st1) @ '' ''
                in Return (Some ans3, strm', st1\<lparr>tableCol := tableCol st1 + 1\<rparr>)))
      else Continue ())"

text \<open>The style string of the styles that are open when the call starts.\<close>

definition style_string :: "int \<Rightarrow> string" where
  "style_string n =
     concat (map (\<lambda>s. if n AND s \<noteq> 0 then (case HMDStyles s of Some x \<Rightarrow> x | None \<Rightarrow> [])
                      else [])
                 nstyleStandalone) @
     (if n AND link_mask \<noteq> 0
      then (case HMDStyles (n AND link_mask) of Some x \<Rightarrow> x | None \<Rightarrow> [])
      else [])"

text \<open>The link part: \<open>atBeg\<close> is the local \<^verbatim>\<open>atBeginning\<close>, \<open>ans\<close> the style string.\<close>

definition link_open :: "bool \<Rightarrow> stream \<Rightarrow> int" where
  "link_open atBeg strm1 =
     (if atBeg \<and> footnoteNameRE (rest strm1) \<noteq> None then FOOTNOTE_NAME
      else if bareLinkRE (rest strm1) \<noteq> None then
        (if peek strm1 = Some (CHR ''^'') then FOOTREF_BEGIN else BARELINK)
      else LINK)"

definition link_change :: "int \<Rightarrow> stream \<Rightarrow> int option \<times> stream" where
  "link_change ns_link strm =
     (if ns_link = FOOTREF_BEGIN then (Some FOOTREF, skip1 strm)
      else if ns_link = FOOTREF \<or> ns_link = BARELINK then
        (case eat (CHR '']'') strm of Some strm' \<Rightarrow> (Some 0, strm') | None \<Rightarrow> (None, strm))
      else if ns_link = FOOTNOTE_NAME then
        (case match_str '']:'' strm of Some strm' \<Rightarrow> (Some 0, strm') | None \<Rightarrow> (None, strm))
      else if ns_link = LINK then
        (case eat (CHR '']'') strm of
           Some strm' \<Rightarrow> (Some LINK_URL, strm')
         | None \<Rightarrow> (None, strm))
      else if ns_link = LINK_URL then
        (case match_re quotedRE strm of
           Some strm' \<Rightarrow> (None, strm')
         | None \<Rightarrow>
             (case eat (CHR '')'') strm of
                Some strm' \<Rightarrow> (Some 0, strm')
              | None \<Rightarrow> (None, strm)))
      else (None, strm))"

definition inline_link :: "bool \<Rightarrow> string \<Rightarrow> stream \<Rightarrow> state \<Rightarrow> (result, stream) flow" where
  "inline_link atBeg ans strm st =
     (let ns_link = nstyle st AND link_mask
      in if ns_link = 0 then
           (if bracketRE (rest strm) \<noteq> None then
              (let strm1 = skip1 strm;
                   new = link_open atBeg strm1
               in Return (Some (ans @ (case HMDStyles new of Some x \<Rightarrow> x | None \<Rightarrow> [])),
                          strm1, st\<lparr>nstyle := nstyle st OR new\<rparr>))
            else Continue strm)
         else
           (case link_change ns_link strm of
              (Some new_ns_link, strm1) \<Rightarrow>
                Return (Some ans, strm1,
                        st\<lparr>nstyle := (nstyle st AND NOT link_mask) OR new_ns_link\<rparr>)
            | (None, strm1) \<Rightarrow> Continue strm1))"

definition inline_escape :: "string \<Rightarrow> stream \<Rightarrow> state \<Rightarrow> (result, unit) flow" where
  "inline_escape ans strm st =
     (if nstyle st AND ESCAPE \<noteq> 0 then
        Return (Some ans, skip1 strm, st\<lparr>nstyle := nstyle st - ESCAPE\<rparr>)
      else
        (case match_re escapeRE strm of
           Some strm' \<Rightarrow>
             Return (Some (ans @ ''hmd-escape '' @ ''hmd-escape-backslash ''), strm',
                     st\<lparr>nstyle := nstyle st OR ESCAPE\<rparr>)
         | None \<Rightarrow> Continue ()))"

text \<open>
  The delimiters of the simple styles, in the order the code tries them
  (\<^verbatim>\<open>eat\<close> of a character is the match of a one-character string), and their bits.
\<close>

definition delimiters :: "(string \<times> int) list" where
  "delimiters = [(''**'', STRONG), (''__'', STRONG), (''*'', EM), (''_'', EM), (''~~'', DEL)]"

fun try_delimiters :: "(string \<times> int) list \<Rightarrow> stream \<Rightarrow> (stream \<times> int) option" where
  "try_delimiters [] strm = None"
| "try_delimiters ((d, b) # ds) strm =
     (case match_str d strm of
        Some strm' \<Rightarrow> Some (strm', b)
      | None \<Rightarrow> try_delimiters ds strm)"

definition inline_simple :: "string \<Rightarrow> stream \<Rightarrow> state \<Rightarrow> (result, unit) flow" where
  "inline_simple ans strm st =
     (if nstyle st AND style_mask \<noteq> 0 \<or>
         \<not> list_ex is_word (charAt (string strm) (int (pos strm) - 1))
      then
        (case try_delimiters delimiters strm of
           Some (strm', b) \<Rightarrow> Return (Some ans, strm', st\<lparr>nstyle := nstyle st XOR b\<rparr>)
         | None \<Rightarrow> Continue ())
      else Continue ())"

definition inline_fallback :: "string \<Rightarrow> stream \<Rightarrow> state \<Rightarrow> result" where
  "inline_fallback ans strm st =
     (if ans \<noteq> [] then Some ans else None,
      (case match_re meanlessCharsRE strm of Some strm' \<Rightarrow> strm' | None \<Rightarrow> skip1 strm),
      st)"

definition inline_nstyle :: "bool \<Rightarrow> stream \<Rightarrow> state \<Rightarrow> result" where
  "inline_nstyle atBeg strm st =
     (let ans = style_string (nstyle st)
      in case inline_link atBeg ans strm st of
           Return r \<Rightarrow> r
         | Continue strm1 \<Rightarrow>
             (case inline_escape ans strm1 st of
                Return r \<Rightarrow> r
              | Continue _ \<Rightarrow>
                  (case inline_simple ans strm1 st of
                     Return r \<Rightarrow> r
                   | Continue _ \<Rightarrow> inline_fallback ans strm1 st)))"

definition token_inline :: "nat \<Rightarrow> stream \<Rightarrow> state \<Rightarrow> result" where
  "token_inline start strm st0 =
     (let atBeg = atBeginning st0;
          nonspace = (case peek strm of None \<Rightarrow> True | Some c \<Rightarrow> \<not> is_space c);
          st1 = (if atBeg \<and> nonspace then st0\<lparr>atBeginning := False\<rparr> else st0);
          st = st1\<lparr>combineTokens := Some True\<rparr>
      in case inline_tableSep strm st of
           Return r \<Rightarrow> r
         | Continue _ \<Rightarrow>
             (case match_re inlineCodeRE strm of
                Some strm' \<Rightarrow> (None, strm', st)
              | None \<Rightarrow>
                  (case inline_math start strm st of
                     Return r \<Rightarrow> r
                   | Continue strm1 \<Rightarrow>
                       (case inline_table strm1 st of
                          Return r \<Rightarrow> r
                        | Continue _ \<Rightarrow> inline_nstyle atBeg strm1 st))))"

subsection \<open>The whole call\<close>

definition token :: "stream \<Rightarrow> state \<Rightarrow> result option" where
  "token strm st0 =
     (let st = st0\<lparr>combineTokens := None\<rparr>;
          start = pos strm
      in case inside st of
           Some math \<Rightarrow> token_math start strm st
         | Some codeFence \<Rightarrow> Some (token_codeFence start strm st)
         | _ \<Rightarrow>
             (case (if start = 0 then lineStart strm st else Continue st) of
                Return r \<Rightarrow> Some r
              | Continue st1 \<Rightarrow>
                  if inside st1 = Some listSpace then token_listSpace strm st1
                  else Some (token_inline start strm st1)))"

section \<open>The host's scan of lines\<close>

text \<open>
  The editor calls \<^verbatim>\<open>token\<close> until the end of the line is reached, and
  \<^verbatim>\<open>blankLine\<close> on an empty line. \<open>scanLine\<close> returns the results of the calls made on
  one line, at most \<open>fuel\<close> of them (\<open>None\<close> when they do not reach the end of the line).
\<close>

fun scanLine :: "nat \<Rightarrow> stream \<Rightarrow> state \<Rightarrow> result list option" where
  "scanLine 0 strm st = (if eol strm then Some [] else None)"
| "scanLine (Suc fuel) strm st =
     (if eol strm then Some []
      else (case token strm st of
              None \<Rightarrow> None
            | Some (tag, strm', st') \<Rightarrow>
                map_option (\<lambda>rs. (tag, strm', st') # rs) (scanLine fuel strm' st')))"

definition final_state :: "state \<Rightarrow> result list \<Rightarrow> state" where
  "final_state st rs = (case rev rs of [] \<Rightarrow> st | (_, _, st') # _ \<Rightarrow> st')"

text \<open>
  A document is scanned line by line from line number \<open>n\<close> on; the stream of a line sees
  the text of the line after it. Each line gets twice its length of calls.
\<close>

fun scanLines :: "nat \<Rightarrow> nat \<Rightarrow> string list \<Rightarrow> state \<Rightarrow> state option" where
  "scanLines ts n [] st = Some st"
| "scanLines ts n (l # ls) st =
     (if l = [] then scanLines ts (Suc n) ls (snd (blankLine st))
      else (case scanLine (2 * length l)
                   \<lparr>string = l, pos = 0, tabSize = ts, line = n,
                    lookAhead1 = (case ls of [] \<Rightarrow> None | x # _ \<Rightarrow> Some x)\<rparr> st of
              None \<Rightarrow> None
            | Some rs \<Rightarrow> scanLines ts (Suc n) ls (final_state st rs)))"

section \<open>Observing a scan\<close>

text \<open>
  \<^verbatim>\<open>stream.current()\<close>: the text between the position before a call and the position
  after it. \<open>consumed\<close> pairs each call of a scan with the text it consumed.
\<close>

definition current :: "stream \<Rightarrow> stream \<Rightarrow> string" where
  "current strm strm' = take (pos strm' - pos strm) (rest strm)"

fun consumed :: "nat \<Rightarrow> result list \<Rightarrow> (string \<times> string option \<times> state) list" where
  "consumed p [] = []"
| "consumed p ((t, s, st) # rs) =
     (take (pos s - p) (drop p (string s)), t, st) # consumed (pos s) rs"

text \<open>A line on its own: line number 0, tab size 4, no line after it.\<close>

definition line_stream :: "string \<Rightarrow> stream" where
  "line_stream l = \<lparr>string = l, pos = 0, tabSize = 4, line = 0, lookAhead1 = None\<rparr>"

text \<open>
  The scan of one line from the start state: for each call the text consumed, and the
  link state, or the returned style and the style mask, after the call.
\<close>

definition link_trace :: "string \<Rightarrow> (string \<times> int) list option" where
  "link_trace l =
     map_option (map (\<lambda>(txt, t, st). (txt, linkState st)) \<circ> consumed 0)
       (scanLine (2 * length l) (line_stream l) startState)"

definition style_trace :: "string \<Rightarrow> (string \<times> string option \<times> int) list option" where
  "style_trace l =
     map_option (map (\<lambda>(txt, t, st). (txt, t, inlineStyleMask st)) \<circ> consumed 0)
       (scanLine (2 * length l) (line_stream l) startState)"

text \<open>Both axes at once: the text consumed, the style, the link state and the style mask.\<close>

definition axes_trace :: "string \<Rightarrow> (string \<times> string option \<times> int \<times> int) list option" where
  "axes_trace l =
     map_option (map (\<lambda>(txt, t, st). (txt, t, linkState st, inlineStyleMask st)) \<circ> consumed 0)
       (scanLine (2 * length l) (line_stream l) startState)"

text \<open>\<^verbatim>\<open>trim()\<close>: the line without its leading and trailing white space.\<close>

definition trim :: "string \<Rightarrow> string" where
  "trim s = rev (dropWhile is_space (rev (dropWhile is_space s)))"

section \<open>Reachable states and the shape of the list stack\<close>

text \<open>
  The states that calls of \<^verbatim>\<open>token\<close> (on any stream, at any position),
  \<^verbatim>\<open>blankLine\<close> and \<^verbatim>\<open>copyState\<close> lead to from the start state. The states of the
  host's scan of a document are among them.
\<close>

inductive reachable :: "state \<Rightarrow> bool" where
  start: "reachable startState"
| tok: "reachable st \<Longrightarrow> token strm st = Some (tag, strm', st') \<Longrightarrow> reachable st'"
| blank: "reachable st \<Longrightarrow> reachable (snd (blankLine st))"
| copy: "reachable st \<Longrightarrow> reachable (copyState st)"

text \<open>
  The shape of \<^verbatim>\<open>listSpaceStack\<close>: the first width is not negative, every other width
  is positive.
\<close>

definition stack_ok :: "int list \<Rightarrow> bool" where
  "stack_ok xs = (case xs of [] \<Rightarrow> True | x # r \<Rightarrow> 0 \<le> x \<and> list_all (\<lambda>y. 0 < y) r)"

text \<open>
  The dynamic type of \<^verbatim>\<open>extra\<close> that the stages rely on: a string inside math, and no
  string inside the list indentation.
\<close>

definition is_str :: "extra \<Rightarrow> bool" where
  "is_str e = (case e of EStr _ \<Rightarrow> True | _ \<Rightarrow> False)"

definition typed :: "state \<Rightarrow> bool" where
  "typed st =
     (if inside st = Some math then is_str (extra st)
      else if inside st = Some listSpace then \<not> is_str (extra st)
      else True)"

section \<open>The call, stage by stage\<close>

lemma token_math_eq:
  "inside st = Some math \<Longrightarrow>
   token strm st = token_math (pos strm) strm (st\<lparr>combineTokens := None\<rparr>)"
  by (simp add: token_def)

lemma token_fence_eq:
  "inside st = Some codeFence \<Longrightarrow>
   token strm st = Some (token_codeFence (pos strm) strm (st\<lparr>combineTokens := None\<rparr>))"
  by (simp add: token_def)

lemma token_other_eq:
  "inside st \<noteq> Some math \<Longrightarrow> inside st \<noteq> Some codeFence \<Longrightarrow>
   token strm st =
     (case (if pos strm = 0 then lineStart strm (st\<lparr>combineTokens := None\<rparr>)
            else Continue (st\<lparr>combineTokens := None\<rparr>)) of
        Return r \<Rightarrow> Some r
      | Continue st1 \<Rightarrow>
          if inside st1 = Some listSpace then token_listSpace strm st1
          else Some (token_inline (pos strm) strm st1))"
  unfolding token_def Let_def
  by (cases "inside st") (simp_all split: insideValues.split)

lemma token_cases [consumes 1, case_names math fence start list inline]:
  assumes "token strm st = Some r"
  obtains
    (math) "inside st = Some math"
      "token_math (pos strm) strm (st\<lparr>combineTokens := None\<rparr>) = Some r"
  | (fence) "inside st = Some codeFence"
      "r = token_codeFence (pos strm) strm (st\<lparr>combineTokens := None\<rparr>)"
  | (start) "pos strm = 0" "lineStart strm (st\<lparr>combineTokens := None\<rparr>) = Return r"
  | (list) st1 where
      "(if pos strm = 0 then lineStart strm (st\<lparr>combineTokens := None\<rparr>)
        else Continue (st\<lparr>combineTokens := None\<rparr>)) = Continue st1"
      "inside st1 = Some listSpace" "token_listSpace strm st1 = Some r"
  | (inline) st1 where
      "(if pos strm = 0 then lineStart strm (st\<lparr>combineTokens := None\<rparr>)
        else Continue (st\<lparr>combineTokens := None\<rparr>)) = Continue st1"
      "inside st1 \<noteq> Some listSpace" "r = token_inline (pos strm) strm st1"
proof (cases "inside st = Some math")
  case True
  with assms math show ?thesis
    by (simp add: token_math_eq)
next
  case nm: False
  show ?thesis
  proof (cases "inside st = Some codeFence")
    case True
    with assms fence show ?thesis
      by (simp add: token_fence_eq)
  next
    case False
    let ?f = "if pos strm = 0 then lineStart strm (st\<lparr>combineTokens := None\<rparr>)
        else Continue (st\<lparr>combineTokens := None\<rparr>)"
    show ?thesis
    proof (cases ?f)
      case (Return r')
      with assms nm False have "r' = r"
        by (simp add: token_other_eq)
      with Return start show ?thesis
        by (auto split: if_splits)
    next
      case (Continue st1)
      with assms nm False have
        "(if inside st1 = Some listSpace then token_listSpace strm st1
          else Some (token_inline (pos strm) strm st1)) = Some r"
        by (simp add: token_other_eq)
      with Continue list inline show ?thesis
        by (cases "inside st1 = Some listSpace") auto
    qed
  qed
qed

subsection \<open>What a call leaves of \<^verbatim>\<open>nstyle\<close>\<close>

lemma sub_escape: "(n::int) AND 8 \<noteq> 0 \<Longrightarrow> n - 8 = n AND NOT 8"
proof -
  assume "n AND 8 \<noteq> 0"
  then have "n AND 2 ^ 3 \<noteq> 0" by simp
  then have b: "bit n 3" by (simp only: and_exp_eq_0_iff_not_bit not_not)
  have "NOT n AND 2 ^ 3 = 0"
    by (subst and_exp_eq_0_iff_not_bit) (simp add: bit_not_iff b)
  then have "NOT n AND 8 = 0" by simp
  then show ?thesis by (rule disjunctive_diff_eq_and_not)
qed

lemma token_math_nstyle:
  "token_math start strm st = Some (t, s', st') \<Longrightarrow> nstyle st' = nstyle st"
  by (auto simp: token_math_def Let_def split: extra.splits if_splits)

lemma token_codeFence_nstyle:
  "token_codeFence start strm st = (t, s', st') \<Longrightarrow> nstyle st' = nstyle st"
  by (auto simp: token_codeFence_def Let_def split: option.splits if_splits)

lemma lineStart_nstyle:
  "(case lineStart strm st of
      Return (t, s', st') \<Rightarrow> nstyle st' = nstyle st
    | Continue st' \<Rightarrow> nstyle st' = nstyle st)"
  by (simp add: lineStart_def Let_def split: option.split prod.split)

lemma token_listSpace_nstyle:
  "token_listSpace strm st = Some (t, s', st') \<Longrightarrow> nstyle st' = nstyle st"
  by (auto simp: token_listSpace_def Let_def split: extra.splits if_splits prod.splits)

lemma link_open_low: "link_open a s AND style_mask = 0"
  by (simp add: link_open_def style_mask_def FOOTNOTE_NAME_def FOOTREF_BEGIN_def BARELINK_def LINK_def)

lemma link_change_low: "link_change l s = (Some v, s1) \<Longrightarrow> v AND style_mask = 0"
  by (auto simp: link_change_def style_mask_def FOOTREF_def LINK_URL_def split: if_splits option.splits)

lemma inline_link_style:
  assumes "inline_link atBeg ans strm st = Return (t, s', st')"
  shows "inlineStyleMask st' = inlineStyleMask st"
proof (cases "nstyle st AND link_mask = 0")
  case True
  with assms have "nstyle st' = nstyle st OR link_open atBeg (skip1 strm)"
    by (auto simp: inline_link_def Let_def split: if_splits)
  then show ?thesis
    by (simp add: inlineStyleMask_def bit.conj_disj_distrib2 link_open_low)
next
  case False
  with assms obtain v s1 where lc: "link_change (nstyle st AND link_mask) strm = (Some v, s1)"
    and n: "nstyle st' = (nstyle st AND NOT link_mask) OR v"
    by (auto simp: inline_link_def Let_def split: if_splits prod.splits option.splits)
  have "NOT link_mask AND style_mask = style_mask"
    by (simp add: link_mask_def style_mask_def)
  then show ?thesis
    by (simp add: inlineStyleMask_def n bit.conj_disj_distrib2 link_change_low [OF lc] and.assoc)
qed

lemma inline_escape_link:
  assumes "inline_escape ans strm st = Return (t, s', st')"
  shows "linkState st' = linkState st"
proof (cases "nstyle st AND ESCAPE = 0")
  case True
  with assms have "nstyle st' = nstyle st OR ESCAPE"
    by (auto simp: inline_escape_def split: if_splits option.splits)
  then show ?thesis
    by (simp add: linkState_def bit.conj_disj_distrib2 ESCAPE_def link_mask_def)
next
  case False
  with assms have "nstyle st' = nstyle st - ESCAPE"
    by (auto simp: inline_escape_def split: if_splits option.splits)
  with False have "nstyle st' = nstyle st AND NOT 8"
    by (simp add: ESCAPE_def sub_escape)
  then show ?thesis
    by (simp add: linkState_def link_mask_def and.assoc)
qed

lemma try_delimiters_bit:
  "try_delimiters ds strm = Some (s', b) \<Longrightarrow> b \<in> snd ` set ds"
  by (induction ds strm rule: try_delimiters.induct) (auto split: option.splits)

lemma inline_simple_link:
  assumes "inline_simple ans strm st = Return (t, s', st')"
  shows "linkState st' = linkState st"
proof -
  from assms obtain b where b: "try_delimiters delimiters strm = Some (s', b)"
    and n: "nstyle st' = nstyle st XOR b"
    by (auto simp: inline_simple_def split: if_splits option.splits)
  from try_delimiters_bit [OF b] have "b = STRONG \<or> b = EM \<or> b = DEL"
    by (auto simp: delimiters_def)
  then have "b AND link_mask = 0"
    by (auto simp: STRONG_def EM_def DEL_def link_mask_def)
  then show ?thesis
    by (simp add: linkState_def n bit.conj_xor_distrib2)
qed

lemma inline_nstyle_frame:
  assumes "inline_nstyle atBeg strm st = (t, s', st')"
  shows "linkState st' = linkState st \<or> inlineStyleMask st' = inlineStyleMask st"
  using assms
  by (auto simp: inline_nstyle_def Let_def inline_fallback_def
      split: flow.splits dest: inline_link_style inline_escape_link inline_simple_link)

lemma token_inline_frame:
  assumes "token_inline start strm st = (t, s', st')"
  shows "linkState st' = linkState st \<or> inlineStyleMask st' = inlineStyleMask st"
proof -
  define st1 where "st1 = (if atBeginning st \<and> (case peek strm of None \<Rightarrow> True | Some c \<Rightarrow> \<not> is_space c)
      then st\<lparr>atBeginning := False\<rparr> else st)\<lparr>combineTokens := Some True\<rparr>"
  have n1: "nstyle st1 = nstyle st"
    by (simp add: st1_def)
  have "linkState st' = linkState st1 \<or> inlineStyleMask st' = inlineStyleMask st1"
    using assms
    unfolding token_inline_def Let_def st1_def [symmetric]
    by (auto simp: inline_tableSep_def inline_math_def inline_table_def Let_def
        linkState_def inlineStyleMask_def
        split: flow.splits option.splits if_splits
        dest: inline_nstyle_frame [unfolded linkState_def inlineStyleMask_def])
  then show ?thesis
    by (simp add: linkState_def inlineStyleMask_def n1)
qed

subsection \<open>What a call leaves of the list stack\<close>

lemma rebuildLoop_keeps:
  "rebuildLoop xs ind = (ys, i) \<Longrightarrow> list_all P xs \<Longrightarrow> list_all P ys"
  by (induction xs ind arbitrary: ys i rule: rebuildLoop.induct)
     (auto split: if_splits prod.splits)

lemma rebuildLoop_take:
  "rebuildLoop xs ind = (ys, i) \<Longrightarrow> ys = take (length ys) xs"
  by (induction xs ind arbitrary: ys i rule: rebuildLoop.induct)
     (auto split: if_splits prod.splits)

lemma stack_ok_snoc: "stack_ok xs \<Longrightarrow> 0 < w \<Longrightarrow> stack_ok (xs @ [w])"
  by (cases xs) (auto simp: stack_ok_def)

lemma rebuildStack_ok:
  assumes "stack_ok s"
  shows "stack_ok (rebuildStack s ind)"
proof -
  obtain kept i where k: "(case s of
               [] \<Rightarrow> ([], ind)
             | x # xs \<Rightarrow>
                 if x = 0 then (let (ys, i) = rebuildLoop xs ind in (x # ys, i))
                 else rebuildLoop s ind) = (kept, i)"
    by (cases "(case s of
               [] \<Rightarrow> ([], ind)
             | x # xs \<Rightarrow>
                 if x = 0 then (let (ys, i) = rebuildLoop xs ind in (x # ys, i))
                 else rebuildLoop s ind)") auto
  have kept: "stack_ok kept"
  proof (cases s)
    case Nil
    with k show ?thesis by (simp add: stack_ok_def)
  next
    case (Cons x xs)
    show ?thesis
    proof (cases "x = 0")
      case True
      with k Cons obtain ys where "rebuildLoop xs ind = (ys, i)" "kept = x # ys"
        by (auto split: prod.splits)
      with assms Cons show ?thesis
        by (auto simp: stack_ok_def dest: rebuildLoop_keeps)
    next
      case False
      with k Cons have r: "rebuildLoop (x # xs) ind = (kept, i)"
        by simp
      show ?thesis
      proof (cases "0 < ind")
        case True
        with r obtain ys where "rebuildLoop xs (ind - x) = (ys, i)" "kept = x # ys"
          by (auto split: prod.splits)
        with assms Cons show ?thesis
          by (auto simp: stack_ok_def dest: rebuildLoop_keeps)
      next
        case False
        with r show ?thesis by (simp add: stack_ok_def)
      qed
    qed
  qed
  have "rebuildStack s ind =
    (let pushed = (if 0 < i then kept @ [i] else kept) in if pushed = [] then [0] else pushed)"
    unfolding rebuildStack_def k by simp
  with kept show ?thesis
    by (auto simp: Let_def stack_ok_snoc) (simp add: stack_ok_def)
qed

lemma rebuildStack_shape:
  "\<exists>k. (rebuildStack s ind = take k s \<and> take k s \<noteq> []) \<or>
       (\<exists>w. 0 < w \<and> rebuildStack s ind = take k s @ [w]) \<or>
       (rebuildStack s ind = [0] \<and> take k s = [])"
proof -
  obtain kept i where k: "(case s of
               [] \<Rightarrow> ([], ind)
             | x # xs \<Rightarrow>
                 if x = 0 then (let (ys, i) = rebuildLoop xs ind in (x # ys, i))
                 else rebuildLoop s ind) = (kept, i)"
    by (cases "(case s of
               [] \<Rightarrow> ([], ind)
             | x # xs \<Rightarrow>
                 if x = 0 then (let (ys, i) = rebuildLoop xs ind in (x # ys, i))
                 else rebuildLoop s ind)") auto
  have kt: "kept = take (length kept) s"
  proof (cases s)
    case Nil
    with k show ?thesis by simp
  next
    case (Cons x xs)
    show ?thesis
    proof (cases "x = 0")
      case True
      with k Cons obtain ys where ys: "rebuildLoop xs ind = (ys, i)" "kept = x # ys"
        by (auto split: prod.splits)
      from rebuildLoop_take [OF ys(1)] ys(2) Cons show ?thesis
        by simp
    next
      case False
      with k Cons have "rebuildLoop s ind = (kept, i)"
        by simp
      then show ?thesis
        by (rule rebuildLoop_take)
    qed
  qed
  have rs: "rebuildStack s ind =
    (let pushed = (if 0 < i then kept @ [i] else kept) in if pushed = [] then [0] else pushed)"
    unfolding rebuildStack_def k by simp
  show ?thesis
  proof (cases "0 < i")
    case True
    with rs have "rebuildStack s ind = kept @ [i]"
      by simp
    with kt True have "0 < i \<and> rebuildStack s ind = take (length kept) s @ [i]"
      by simp
    then show ?thesis
      by blast
  next
    case False
    show ?thesis
    proof (cases "kept = []")
      case True
      with rs False have "rebuildStack s ind = [0] \<and> take 0 s = []"
        by simp
      then show ?thesis
        by blast
    next
      case ne: False
      with rs False have "rebuildStack s ind = kept"
        by simp
      with kt ne have "rebuildStack s ind = take (length kept) s \<and> take (length kept) s \<noteq> []"
        by simp
      then show ?thesis
        by blast
    qed
  qed
qed

lemma token_math_stack:
  "token_math start strm st = Some (t, s', st') \<Longrightarrow> listSpaceStack st' = listSpaceStack st"
  by (auto simp: token_math_def Let_def split: extra.splits if_splits)

lemma token_codeFence_stack:
  "token_codeFence start strm st = (t, s', st') \<Longrightarrow> listSpaceStack st' = listSpaceStack st"
  by (auto simp: token_codeFence_def Let_def split: option.splits if_splits)

lemma lineStart_stack:
  "(case lineStart strm st of
      Return (t, s', st') \<Rightarrow> listSpaceStack st' = listSpaceStack st
    | Continue st' \<Rightarrow>
        listSpaceStack st' = listSpaceStack st \<or>
        listSpaceStack st' = rebuildStack (listSpaceStack st) (indentation strm))"
  by (simp add: lineStart_def Let_def split: option.split prod.split)

lemma token_listSpace_stack:
  "token_listSpace strm st = Some (t, s', st') \<Longrightarrow> listSpaceStack st' = listSpaceStack st"
  by (auto simp: token_listSpace_def Let_def split: extra.splits if_splits prod.splits)

lemma inline_nstyle_stack:
  "inline_nstyle atBeg strm st = (t, s', st') \<Longrightarrow> listSpaceStack st' = listSpaceStack st"
  by (auto simp: inline_nstyle_def Let_def inline_fallback_def inline_link_def inline_escape_def
      inline_simple_def split: flow.splits if_splits prod.splits option.splits)

lemma token_inline_stack:
  assumes "token_inline start strm st = (t, s', st')"
  shows "listSpaceStack st' = listSpaceStack st"
proof -
  define st1 where "st1 = (if atBeginning st \<and> (case peek strm of None \<Rightarrow> True | Some c \<Rightarrow> \<not> is_space c)
      then st\<lparr>atBeginning := False\<rparr> else st)\<lparr>combineTokens := Some True\<rparr>"
  have n1: "listSpaceStack st1 = listSpaceStack st"
    by (simp add: st1_def)
  have "listSpaceStack st' = listSpaceStack st1"
    using assms
    unfolding token_inline_def Let_def st1_def [symmetric]
    by (auto simp: inline_tableSep_def inline_math_def inline_table_def Let_def
        split: flow.splits option.splits if_splits
        dest: inline_nstyle_stack)
  then show ?thesis
    by (simp add: n1)
qed

lemma token_stack:
  assumes "token strm st = Some (tag, strm', st')"
  shows "listSpaceStack st' = listSpaceStack st \<or>
         listSpaceStack st' = rebuildStack (listSpaceStack st) (indentation strm)"
proof -
  have cont: "listSpaceStack st1 = listSpaceStack st \<or>
         listSpaceStack st1 = rebuildStack (listSpaceStack st) (indentation strm)"
    if "(if pos strm = 0 then lineStart strm (st\<lparr>combineTokens := None\<rparr>)
         else Continue (st\<lparr>combineTokens := None\<rparr>)) = Continue st1" for st1
    using that lineStart_stack [where strm = strm and st = "st\<lparr>combineTokens := None\<rparr>"]
    by (auto split: if_splits)
  from assms show ?thesis
  proof (cases rule: token_cases)
    case math
    then show ?thesis
      by (auto dest: token_math_stack)
  next
    case fence
    then show ?thesis
      by (auto dest: token_codeFence_stack [OF sym])
  next
    case start
    then show ?thesis
      using lineStart_stack [where strm = strm and st = "st\<lparr>combineTokens := None\<rparr>"]
      by simp
  next
    case (list st1)
    then show ?thesis
      using cont [of st1] by (auto dest: token_listSpace_stack)
  next
    case (inline st1)
    from inline(3) have "listSpaceStack st' = listSpaceStack st1"
      by (auto dest: token_inline_stack [OF sym])
    with cont [OF inline(1)] show ?thesis
      by simp
  qed
qed

lemma reachable_stack_ok: "reachable st \<Longrightarrow> stack_ok (listSpaceStack st)"
proof (induction rule: reachable.induct)
  case start
  show ?case by (simp add: startState_def stack_ok_def)
next
  case (tok st strm tag strm' st')
  from token_stack [OF tok.hyps(2)] tok.IH show ?case
    by (auto simp: rebuildStack_ok)
next
  case (blank st)
  show ?case by (simp add: blankLine_def stack_ok_def)
next
  case (copy st)
  then show ?case by (simp add: copyState_def)
qed

lemma scanLine_reachable:
  "reachable st \<Longrightarrow> scanLine fuel strm st = Some rs \<Longrightarrow> reachable (final_state st rs)"
proof (induction fuel strm st arbitrary: rs rule: scanLine.induct)
  case (1 strm st)
  then show ?case by (auto simp: final_state_def split: if_splits)
next
  case (2 fuel strm st)
  show ?case
  proof (cases "eol strm")
    case True
    with 2 show ?thesis by (auto simp: final_state_def)
  next
    case False
    with "2.prems" obtain tag strm' st' rs' where t: "token strm st = Some (tag, strm', st')"
      and rs': "scanLine fuel strm' st' = Some rs'" and rs: "rs = (tag, strm', st') # rs'"
      by (auto split: option.splits)
    have r': "reachable st'"
      using "2.prems"(1) t by (rule reachable.tok)
    from "2.IH" [OF False t refl refl r' rs'] have "reachable (final_state st' rs')" .
    moreover have "final_state st rs = final_state st' rs'"
      by (cases "rev rs'") (auto simp: final_state_def rs)
    ultimately show ?thesis by simp
  qed
qed

lemma scanLines_reachable:
  "reachable st \<Longrightarrow> scanLines ts n ls st = Some st' \<Longrightarrow> reachable st'"
proof (induction ls arbitrary: st n)
  case Nil
  then show ?case by simp
next
  case (Cons l ls)
  show ?case
  proof (cases "l = []")
    case True
    with Cons.prems have "scanLines ts (Suc n) ls (snd (blankLine st)) = Some st'"
      by simp
    with Cons.IH [OF reachable.blank [OF Cons.prems(1)]] show ?thesis .
  next
    case False
    with Cons.prems(2) obtain rs where
      rs: "scanLine (2 * length l)
             \<lparr>string = l, pos = 0, tabSize = ts, line = n,
              lookAhead1 = (case ls of [] \<Rightarrow> None | x # _ \<Rightarrow> Some x)\<rparr> st = Some rs"
      and nx: "scanLines ts (Suc n) ls (final_state st rs) = Some st'"
      by (auto split: option.splits)
    from scanLine_reachable [OF Cons.prems(1) rs] have "reachable (final_state st rs)" .
    from Cons.IH [OF this nx] show ?thesis .
  qed
qed

subsection \<open>Every call on a reachable state returns\<close>

lemma is_str_simps [simp]:
  "is_str (EStr d)" "\<not> is_str ENull" "\<not> is_str (ENum n)"
  by (simp_all add: is_str_def)

lemma typed_same:
  "typed st \<Longrightarrow> extra st' = extra st \<Longrightarrow>
   inside st' = inside st \<or> inside st' = Some codeFence \<or> inside st' = Some tableTitleSep \<or>
   inside st' = Some nothing \<or> inside st' = None \<Longrightarrow> typed st'"
  by (auto simp: typed_def split: if_splits)

lemma lineStart_mode:
  "(case lineStart strm st of
      Return (t, s', st') \<Rightarrow>
        extra st' = extra st \<and>
        (inside st' = inside st \<or> inside st' = Some codeFence \<or>
         inside st' = Some tableTitleSep \<or> inside st' = None)
    | Continue st' \<Rightarrow>
        (inside st' = Some listSpace \<and> extra st' = ENum 0) \<or>
        (extra st' = extra st \<and>
         (inside st' = inside st \<or> inside st' = Some tableTitleSep \<or> inside st' = None)))"
  by (simp add: lineStart_def Let_def split: option.split prod.split)

lemma lineStart_typed:
  assumes "typed st0"
    and "(if pos strm = 0 then lineStart strm st0 else Continue st0) = Continue st1"
  shows "typed st1"
proof (cases "pos strm = 0")
  case False
  with assms show ?thesis by simp
next
  case True
  with assms(2) lineStart_mode [where strm = strm and st = st0]
  have "(inside st1 = Some listSpace \<and> extra st1 = ENum 0) \<or>
        (extra st1 = extra st0 \<and>
         (inside st1 = inside st0 \<or> inside st1 = Some tableTitleSep \<or> inside st1 = None))"
    by simp
  then show ?thesis
  proof
    assume "inside st1 = Some listSpace \<and> extra st1 = ENum 0"
    then show ?thesis by (simp add: typed_def)
  next
    assume "extra st1 = extra st0 \<and>
         (inside st1 = inside st0 \<or> inside st1 = Some tableTitleSep \<or> inside st1 = None)"
    with assms(1) show ?thesis
      by (auto simp: typed_def split: if_splits)
  qed
qed

lemma token_math_mode:
  "token_math start strm st = Some (t, s', st') \<Longrightarrow>
   extra st' = extra st \<and> (inside st' = inside st \<or> inside st' = Some nothing)"
  by (auto simp: token_math_def Let_def split: extra.splits if_splits)

lemma token_codeFence_mode:
  "token_codeFence start strm st = (t, s', st') \<Longrightarrow>
   extra st' = extra st \<and> (inside st' = inside st \<or> inside st' = Some nothing)"
  by (auto simp: token_codeFence_def Let_def split: option.splits if_splits)

lemma token_listSpace_mode:
  "token_listSpace strm st = Some (t, s', st') \<Longrightarrow>
   (inside st' = inside st \<or> inside st' = None) \<and> (\<forall>d. extra st' \<noteq> EStr d)"
  by (auto simp: token_listSpace_def Let_def split: extra.splits if_splits prod.splits)

lemma inline_nstyle_mode:
  "inline_nstyle atBeg strm st = (t, s', st') \<Longrightarrow> extra st' = extra st \<and> inside st' = inside st"
  by (auto simp: inline_nstyle_def Let_def inline_fallback_def inline_link_def inline_escape_def
      inline_simple_def split: flow.splits if_splits prod.splits option.splits)

lemma token_inline_mode:
  assumes "token_inline start strm st = (t, s', st')"
  shows "(extra st' = extra st \<and> inside st' = inside st) \<or>
         (inside st' = Some math \<and> (\<exists>d. extra st' = EStr d))"
proof -
  define st1 where "st1 = (if atBeginning st \<and> (case peek strm of None \<Rightarrow> True | Some c \<Rightarrow> \<not> is_space c)
      then st\<lparr>atBeginning := False\<rparr> else st)\<lparr>combineTokens := Some True\<rparr>"
  have n1: "extra st1 = extra st" "inside st1 = inside st"
    by (simp_all add: st1_def)
  have "(extra st' = extra st1 \<and> inside st' = inside st1) \<or>
         (inside st' = Some math \<and> (\<exists>d. extra st' = EStr d))"
    using assms
    unfolding token_inline_def Let_def st1_def [symmetric]
    by (auto simp: inline_tableSep_def inline_math_def inline_table_def Let_def
        split: flow.splits option.splits if_splits
        dest: inline_nstyle_mode)
  then show ?thesis
    by (simp add: n1)
qed

lemma token_typed:
  assumes "typed st" and "token strm st = Some (tag, strm', st')"
  shows "typed st'"
proof -
  let ?st0 = "st\<lparr>combineTokens := None\<rparr>"
  have t0: "typed ?st0"
    using assms(1) by (rule typed_same) simp_all
  from assms(2) show ?thesis
  proof (cases rule: token_cases)
    case math
    from token_math_mode [OF math(2)] t0 show ?thesis
      by (auto intro: typed_same)
  next
    case fence
    from token_codeFence_mode [OF fence(2) [symmetric]] t0 show ?thesis
      by (auto intro: typed_same)
  next
    case start
    with lineStart_mode [where strm = strm and st = ?st0] t0 show ?thesis
      by (auto intro: typed_same)
  next
    case (list st1)
    from token_listSpace_mode [OF list(3)] list(2) have "\<not> is_str (extra st')"
      by (cases "extra st'") auto
    moreover from token_listSpace_mode [OF list(3)] list(2)
    have "inside st' = Some listSpace \<or> inside st' = None"
      by auto
    ultimately show ?thesis
      by (auto simp: typed_def split: if_splits)
  next
    case (inline st1)
    have t1: "typed st1"
      using t0 inline(1) by (rule lineStart_typed)
    from token_inline_mode [OF inline(3) [symmetric]] t1 show ?thesis
      by (auto simp: typed_def split: if_splits)
  qed
qed

lemma reachable_typed: "reachable st \<Longrightarrow> typed st"
proof (induction rule: reachable.induct)
  case start
  show ?case by (simp add: typed_def startState_def)
next
  case (tok st strm tag strm' st')
  then show ?case by (auto intro: token_typed)
next
  case (blank st)
  from blank.IH show ?case
    by (rule typed_same) (simp_all add: blankLine_def)
next
  case (copy st)
  from copy.IH show ?case
    by (rule typed_same) (simp_all add: copyState_def)
qed

lemma token_returns:
  assumes "typed st"
  shows "\<exists>r. token strm st = Some r"
proof (cases "inside st = Some math")
  case True
  with assms obtain d where "extra st = EStr d"
    by (cases "extra st") (auto simp: typed_def split: if_splits)
  with True have "token strm st \<noteq> None"
    by (simp add: token_math_eq token_math_def Let_def)
  then show ?thesis
    by blast
next
  case nm: False
  show ?thesis
  proof (cases "inside st = Some codeFence")
    case True
    from token_fence_eq [OF this] show ?thesis
      by blast
  next
    case False
    let ?st0 = "st\<lparr>combineTokens := None\<rparr>"
    have t0: "typed ?st0"
      using assms by (rule typed_same) simp_all
    let ?f = "if pos strm = 0 then lineStart strm ?st0 else Continue ?st0"
    show ?thesis
    proof (cases ?f)
      case (Return r)
      with nm False have "token strm st = Some r"
        by (simp add: token_other_eq)
      then show ?thesis
        by blast
    next
      case (Continue st1)
      have t1: "typed st1"
        using t0 Continue by (rule lineStart_typed)
      show ?thesis
      proof (cases "inside st1 = Some listSpace")
        case True
        with t1 have "\<forall>d. extra st1 \<noteq> EStr d"
          by (auto simp: typed_def split: if_splits)
        then have "token_listSpace strm st1 \<noteq> None"
          by (cases "extra st1") (auto simp: token_listSpace_def Let_def split: prod.splits)
        moreover from Continue True nm \<open>inside st \<noteq> Some codeFence\<close>
        have "token strm st = token_listSpace strm st1"
          by (simp add: token_other_eq)
        ultimately show ?thesis
          by auto
      next
        case False
        with Continue nm \<open>inside st \<noteq> Some codeFence\<close>
        have "token strm st = Some (token_inline (pos strm) strm st1)"
          by (simp add: token_other_eq)
        then show ?thesis
          by blast
      qed
    qed
  qed
qed

lemma reachable_token_returns: "reachable st \<Longrightarrow> \<exists>r. token strm st = Some r"
  by (rule token_returns) (rule reachable_typed)

subsection \<open>What a call consumes\<close>

text \<open>
  Every regular expression that is matched and consumed matches at least one character;
  so every stage that returns has moved the position, as long as a character is left, the
  math delimiter is not empty, and, inside the list indentation, the index lies within
  the stack.
\<close>

lemma run_le: "run P s \<le> length s"
  unfolding run_def by (induction s) auto

lemma mathContentRE_pos: "mathContentRE s = Some n \<Longrightarrow> 0 < n"
  by (auto simp: mathContentRE_def Let_def split: if_splits)

lemma fenceEndRE_pos: "fenceEndRE s = Some n \<Longrightarrow> 0 < n"
  by (cases s) (auto simp: fenceEndRE_def split: if_splits)

lemma fenceRE_pos: "fenceRE s = Some n \<Longrightarrow> 0 < n"
  by (auto simp: fenceRE_def split: if_splits)

lemma quoteRE_pos: "quoteRE s = Some n \<Longrightarrow> 0 < n"
  by (auto simp: quoteRE_def split: list.splits if_splits)

lemma headerRE_pos: "headerRE s = Some n \<Longrightarrow> 0 < n"
  by (auto simp: headerRE_def Let_def split: list.splits if_splits)

lemma listRE_pos: "listRE s = Some n \<Longrightarrow> 0 < n"
  by (auto simp: listRE_def Let_def split: option.splits if_splits)

lemma tableDashRE_pos: "tableDashRE s = Some n \<Longrightarrow> 0 < n"
  by (auto simp: tableDashRE_def Let_def split: list.splits if_splits)

lemma inlineCodeRE_pos: "inlineCodeRE s = Some n \<Longrightarrow> 0 < n"
  by (auto simp: inlineCodeRE_def Let_def split: list.splits if_splits)

lemma dollarsRE_pos: "dollarsRE s = Some n \<Longrightarrow> 0 < n"
  by (auto simp: dollarsRE_def Let_def split: if_splits)

lemma meanlessCharsRE_pos: "meanlessCharsRE s = Some n \<Longrightarrow> 0 < n"
  by (auto simp: meanlessCharsRE_def Let_def split: if_splits)

lemma quotedRE_pos: "quotedRE s = Some n \<Longrightarrow> 0 < n"
  by (auto simp: quotedRE_def split: list.splits if_splits)

lemma escapeRE_pos: "escapeRE s = Some n \<Longrightarrow> 0 < n"
  by (auto simp: escapeRE_def split: list.splits if_splits)

lemma skip1_le: "pos strm \<le> pos (skip1 strm)"
  by (simp add: skip1_def next_ch_def advance_def split: list.splits)

lemma skip1_advances: "\<not> eol strm \<Longrightarrow> pos strm < pos (skip1 strm)"
  by (auto simp: skip1_def next_ch_def advance_def eol_def rest_def split: list.splits)

definition positive :: "(string \<Rightarrow> nat option) \<Rightarrow> bool" where
  "positive re = (\<forall>s n. re s = Some n \<longrightarrow> 0 < n)"

lemma positive_REs:
  "positive mathContentRE" "positive fenceEndRE" "positive fenceRE" "positive quoteRE"
  "positive headerRE" "positive listRE" "positive tableDashRE" "positive inlineCodeRE"
  "positive dollarsRE" "positive meanlessCharsRE" "positive quotedRE" "positive escapeRE"
  unfolding positive_def
  by (blast dest: mathContentRE_pos fenceEndRE_pos fenceRE_pos quoteRE_pos headerRE_pos
      listRE_pos tableDashRE_pos inlineCodeRE_pos dollarsRE_pos meanlessCharsRE_pos
      quotedRE_pos escapeRE_pos)+

lemma match_re_advances:
  "positive re \<Longrightarrow> match_re re strm = Some s' \<Longrightarrow> pos strm < pos s'"
  by (auto simp: match_re_def advance_def positive_def)

lemma match_or_skip_advances:
  "positive re \<Longrightarrow> \<not> eol strm \<Longrightarrow>
   pos strm < pos (case match_re re strm of Some x \<Rightarrow> x | None \<Rightarrow> skip1 strm)"
  by (auto simp: match_re_advances skip1_advances split: option.splits)

lemma eat_advances: "eat c strm = Some s' \<Longrightarrow> pos strm < pos s'"
  by (auto simp: eat_def advance_def split: if_splits)

lemma skipToEnd_advances: "\<not> eol strm \<Longrightarrow> pos strm < pos (skipToEnd strm)"
  by (simp add: eol_def skipToEnd_def)

lemma match_str_advances: "match_str d strm = Some s' \<Longrightarrow> d \<noteq> [] \<Longrightarrow> pos strm < pos s'"
  by (auto simp: match_str_def advance_def split: if_splits)

lemma token_math_advances:
  assumes "token_math start strm st = Some (t, s', st')" and "\<not> eol strm"
    and "extra st = EStr d" and "d \<noteq> []"
  shows "pos strm < pos s'"
proof (cases "(start = 0 \<or> charAt (string strm) (int start - 1) \<noteq> [backslash]) \<and> looking_at d strm")
  case True
  with assms have "s' = advance (length d) strm"
    by (simp add: token_math_def Let_def)
  with assms(4) show ?thesis
    by (simp add: advance_def)
next
  case False
  with assms have s': "s' = (case match_re mathContentRE strm of Some x \<Rightarrow> x | None \<Rightarrow> skip1 strm)"
    by (simp add: token_math_def Let_def)
  show ?thesis
    unfolding s' using positive_REs(1) assms(2) by (rule match_or_skip_advances)
qed

lemma token_codeFence_advances:
  assumes "token_codeFence start strm st = (t, s', st')" and "\<not> eol strm"
  shows "pos strm < pos s'"
proof (cases "if start = 0 then match_re fenceEndRE strm else None")
  case None
  with assms have "s' = skipToEnd strm"
    by (simp add: token_codeFence_def Let_def)
  with assms(2) show ?thesis
    by (simp add: skipToEnd_advances)
next
  case (Some x)
  with assms have "s' = x" and "match_re fenceEndRE strm = Some x"
    by (auto simp: token_codeFence_def Let_def split: if_splits)
  then show ?thesis
    by (auto intro: match_re_advances positive_REs)
qed

lemma lineStart_advances:
  assumes "lineStart strm st = Return (t, s', st')" and "\<not> eol strm"
  shows "pos strm < pos s'"
proof -
  have q: "pos strm < pos (advance k x)" if "match_re quoteRE strm = Some x" for k x
    using match_re_advances [OF positive_REs(4) that] by (simp add: advance_def)
  have "case lineStart strm st of Return (t, s', st') \<Rightarrow> pos strm < pos s' | Continue _ \<Rightarrow> True"
    using assms(2)
    by (simp add: lineStart_def Let_def skipToEnd_advances skip1_advances q
        match_re_advances [OF positive_REs(3)] match_re_advances [OF positive_REs(5)]
        split: option.split prod.split)
  with assms(1) show ?thesis
    by simp
qed

lemma eatIndent_advances: "0 < w \<Longrightarrow> s \<noteq> [] \<Longrightarrow> 0 < fst (eatIndent w s)"
  by (cases s) (auto split: prod.splits)

lemma token_listSpace_advances:
  assumes "token_listSpace strm st = Some (t, s', st')" and "\<not> eol strm"
    and "stack_ok (listSpaceStack st)"
    and "extra st = ENum e" and "e < length (listSpaceStack st)"
  shows "pos strm < pos s'"
proof -
  let ?stack = "listSpaceStack st"
  from assms(5) obtain x r where stack: "?stack = x # r"
    by (cases ?stack) auto
  from assms(3) stack have x: "0 \<le> x" and r: "list_all (\<lambda>y. 0 < y) r"
    by (simp_all add: stack_ok_def)
  from assms(2) have ne: "rest strm \<noteq> []"
    by (simp add: eol_def rest_def)
  show ?thesis
  proof (cases "e = 0 \<and> x = 0 \<and> r = []")
    case True
    with assms(1,4) stack
    have s': "s' = (case match_re listRE strm of Some x \<Rightarrow> x | None \<Rightarrow> skip1 strm)"
      by (simp add: token_listSpace_def Let_def)
    show ?thesis
      unfolding s' using positive_REs(6) assms(2) by (rule match_or_skip_advances)
  next
    case False
    define i where "i = (if e = 0 \<and> x = 0 then e + 1 else e)"
    have i: "i < length ?stack"
      using False assms(5) stack by (cases r) (auto simp: i_def)
    have w: "0 < ?stack ! i"
    proof (cases i)
      case 0
      with x show ?thesis
        by (auto simp: i_def stack split: if_splits)
    next
      case (Suc j)
      with i r show ?thesis
        by (simp add: stack list_all_length)
    qed
    from False assms(1,4) stack i
    have "s' = advance (fst (eatIndent (?stack ! i) (rest strm))) strm"
      by (auto simp: token_listSpace_def Let_def indent_at_def i_def
          split: prod.splits if_splits)
    with eatIndent_advances [OF w ne] show ?thesis
      by (simp add: advance_def)
  qed
qed

lemma match_or_skip_le:
  "positive re \<Longrightarrow>
   pos strm \<le> pos (case match_re re strm of Some x \<Rightarrow> x | None \<Rightarrow> skip1 strm)"
  by (auto simp: skip1_le dest: match_re_advances split: option.splits)

lemma try_delimiters_advances:
  "try_delimiters ds strm = Some (s', b) \<Longrightarrow> \<forall>(d, b) \<in> set ds. d \<noteq> [] \<Longrightarrow> pos strm < pos s'"
  by (induction ds strm rule: try_delimiters.induct)
     (auto split: option.splits dest: match_str_advances)

lemma inline_simple_advances:
  assumes "inline_simple ans strm st = Return (t, s', st')"
  shows "pos strm < pos s'"
proof -
  from assms obtain b where "try_delimiters delimiters strm = Some (s', b)"
    by (auto simp: inline_simple_def split: if_splits option.splits)
  then show ?thesis
    by (rule try_delimiters_advances) (simp add: delimiters_def)
qed

lemma inline_escape_advances:
  assumes "inline_escape ans strm st = Return (t, s', st')"
  shows "pos strm \<le> pos s' \<and> (\<not> eol strm \<longrightarrow> pos strm < pos s')"
  using assms
  by (auto simp: inline_escape_def skip1_le skip1_advances
      split: if_splits option.splits dest: match_re_advances [OF positive_REs(12)])

lemma inline_fallback_advances:
  assumes "inline_fallback ans strm st = (t, s', st')"
  shows "pos strm \<le> pos s' \<and> (\<not> eol strm \<longrightarrow> pos strm < pos s')"
  using assms match_or_skip_le [OF positive_REs(10), of strm]
    match_or_skip_advances [OF positive_REs(10), of strm]
  by (auto simp: inline_fallback_def)

lemma link_change_cases:
  assumes "link_change l strm = (v, s1)"
  shows "(v = None \<and> s1 = strm) \<or> (v \<noteq> None \<and> s1 = skip1 strm) \<or> pos strm < pos s1"
  using assms
  by (auto simp: link_change_def split: if_splits option.splits
      dest: eat_advances match_str_advances match_re_advances [OF positive_REs(11)])

lemma link_change_advances:
  assumes "link_change l strm = (v, s1)"
  shows "pos strm \<le> pos s1 \<and> (v \<noteq> None \<and> \<not> eol strm \<longrightarrow> pos strm < pos s1) \<and>
         (v = None \<longrightarrow> s1 = strm \<or> pos strm < pos s1)"
  using link_change_cases [OF assms] skip1_le [of strm] skip1_advances [of strm]
  by auto

lemma bracketRE_not_eol: "bracketRE (rest strm) \<noteq> None \<Longrightarrow> \<not> eol strm"
  by (auto simp: bracketRE_def eol_def rest_def split: list.splits)

lemma inline_link_advances:
  "inline_link atBeg ans strm st = Return (t, s', st') \<Longrightarrow>
   pos strm \<le> pos s' \<and> (\<not> eol strm \<longrightarrow> pos strm < pos s')"
  "inline_link atBeg ans strm st = Continue s1 \<Longrightarrow> s1 = strm \<or> pos strm < pos s1"
proof -
  assume a: "inline_link atBeg ans strm st = Return (t, s', st')"
  show "pos strm \<le> pos s' \<and> (\<not> eol strm \<longrightarrow> pos strm < pos s')"
  proof (cases "nstyle st AND link_mask = 0")
    case True
    with a have "bracketRE (rest strm) \<noteq> None" and "s' = skip1 strm"
      by (auto simp: inline_link_def Let_def split: if_splits)
    then show ?thesis
      by (simp add: skip1_le skip1_advances)
  next
    case False
    with a obtain v where "link_change (nstyle st AND link_mask) strm = (Some v, s')"
      by (auto simp: inline_link_def Let_def split: prod.splits option.splits)
    from link_change_advances [OF this] show ?thesis
      by simp
  qed
next
  assume a: "inline_link atBeg ans strm st = Continue s1"
  show "s1 = strm \<or> pos strm < pos s1"
  proof (cases "nstyle st AND link_mask = 0")
    case True
    with a show ?thesis
      by (auto simp: inline_link_def Let_def split: if_splits)
  next
    case False
    with a have "link_change (nstyle st AND link_mask) strm = (None, s1)"
      by (auto simp: inline_link_def Let_def split: prod.splits option.splits)
    from link_change_advances [OF this] show ?thesis
      by simp
  qed
qed

lemma inline_nstyle_advances:
  assumes "inline_nstyle atBeg strm st = (t, s', st')"
  shows "pos strm \<le> pos s' \<and> (\<not> eol strm \<longrightarrow> pos strm < pos s')"
proof (cases "inline_link atBeg (style_string (nstyle st)) strm st")
  case (Return r)
  with assms have "r = (t, s', st')"
    by (simp add: inline_nstyle_def Let_def)
  with Return inline_link_advances(1) show ?thesis
    by blast
next
  case (Continue s1)
  from inline_link_advances(2) [OF Continue] have s1: "s1 = strm \<or> pos strm < pos s1" .
  have "pos s1 \<le> pos s' \<and> (\<not> eol s1 \<longrightarrow> pos s1 < pos s')"
  proof (cases "inline_escape (style_string (nstyle st)) s1 st")
    case (Return r)
    with assms Continue have "r = (t, s', st')"
      by (simp add: inline_nstyle_def Let_def)
    with Return inline_escape_advances show ?thesis
      by blast
  next
    case ce: (Continue u)
    show ?thesis
    proof (cases "inline_simple (style_string (nstyle st)) s1 st")
      case (Return r)
      with assms Continue ce have "r = (t, s', st')"
        by (simp add: inline_nstyle_def Let_def)
      with Return inline_simple_advances [of "style_string (nstyle st)" s1 st t s' st']
      show ?thesis
        by simp
    next
      case cs: (Continue u')
      with assms Continue ce
      have "inline_fallback (style_string (nstyle st)) s1 st = (t, s', st')"
        by (simp add: inline_nstyle_def Let_def)
      then show ?thesis
        by (rule inline_fallback_advances)
    qed
  qed
  with s1 show ?thesis
    by auto
qed

lemma inline_math_advances:
  "inline_math start strm st = Return (t, s', st') \<Longrightarrow> pos strm < pos s'"
  "inline_math start strm st = Continue s1 \<Longrightarrow> s1 = strm \<or> pos strm < pos s1"
  by (auto simp: inline_math_def Let_def advance_def split: option.splits if_splits
      dest: dollarsRE_pos)

lemma inline_table_advances:
  "inline_table strm st = Return (t, s', st') \<Longrightarrow> pos strm < pos s'"
  by (auto simp: inline_table_def Let_def split: option.splits if_splits dest: eat_advances)

lemma token_inline_advances:
  assumes "token_inline start strm st = (t, s', st')" and "\<not> eol strm"
  shows "pos strm < pos s'"
proof -
  define st1 where "st1 = (if atBeginning st \<and> (case peek strm of None \<Rightarrow> True | Some c \<Rightarrow> \<not> is_space c)
      then st\<lparr>atBeginning := False\<rparr> else st)\<lparr>combineTokens := Some True\<rparr>"
  note ti = assms(1) [unfolded token_inline_def Let_def, folded st1_def]
  show ?thesis
  proof (cases "inline_tableSep strm st1")
    case (Return r)
    with ti have "r = (t, s', st')"
      by simp
    with Return show ?thesis
      by (auto simp: inline_tableSep_def split: if_splits option.splits
          dest: match_re_advances [OF positive_REs(7)])
  next
    case c1: (Continue u)
    show ?thesis
    proof (cases "match_re inlineCodeRE strm")
      case (Some x)
      with ti c1 have "s' = x"
        by simp
      with Some show ?thesis
        by (auto dest: match_re_advances [OF positive_REs(8)])
    next
      case None
      show ?thesis
      proof (cases "inline_math start strm st1")
        case (Return r)
        with ti c1 None have "r = (t, s', st')"
          by simp
        with Return show ?thesis
          by (auto dest: inline_math_advances(1))
      next
        case (Continue s1)
        from inline_math_advances(2) [OF Continue] have s1: "s1 = strm \<or> pos strm < pos s1" .
        have "pos s1 \<le> pos s' \<and> (\<not> eol s1 \<longrightarrow> pos s1 < pos s')"
        proof (cases "inline_table s1 st1")
          case (Return r)
          with ti c1 None Continue have "r = (t, s', st')"
            by simp
          with Return show ?thesis
            by (auto dest: inline_table_advances)
        next
          case c4: (Continue u')
          with ti c1 None Continue have "inline_nstyle (atBeginning st) s1 st1 = (t, s', st')"
            by simp
          then show ?thesis
            by (rule inline_nstyle_advances)
        qed
        with s1 assms(2) show ?thesis
          by auto
      qed
    qed
  qed
qed

lemma rebuildStack_nonempty: "rebuildStack s i \<noteq> []"
  by (simp add: rebuildStack_def Let_def split: prod.split)

lemma lineStart_Continue:
  "(case lineStart strm st of
      Return _ \<Rightarrow> True
    | Continue st1 \<Rightarrow>
        (listSpaceStack st1 = rebuildStack (listSpaceStack st) (indentation strm) \<and>
         inside st1 = Some listSpace \<and> extra st1 = ENum 0) \<or>
        (listSpaceStack st1 = [] \<and> listSpaceStack st = [] \<and> extra st1 = extra st \<and>
         (inside st1 = inside st \<or> inside st1 = Some tableTitleSep \<or> inside st1 = None)))"
  by (simp add: lineStart_def Let_def split: option.split prod.split)

theorem token_advances:
  assumes "token strm st = Some (tag, strm', st')"
    and "\<not> eol strm"
    and "stack_ok (listSpaceStack st)"
    and "inside st = Some math \<longrightarrow> (\<exists>d. extra st = EStr d \<and> d \<noteq> [])"
    and "inside st = Some listSpace \<longrightarrow> (\<exists>e. extra st = ENum e \<and> e < length (listSpaceStack st))"
  shows "pos strm < pos strm'"
  using assms(1)
proof (cases rule: token_cases)
  case math
  with assms(4) obtain d where "extra (st\<lparr>combineTokens := None\<rparr>) = EStr d" "d \<noteq> []"
    by auto
  with math(2) assms(2) show ?thesis
    by (auto intro: token_math_advances)
next
  case fence
  with assms(2) show ?thesis
    by (auto dest: token_codeFence_advances [OF sym])
next
  case start
  with assms(2) show ?thesis
    by (auto dest: lineStart_advances)
next
  case (list st1)
  let ?st0 = "st\<lparr>combineTokens := None\<rparr>"
  have "stack_ok (listSpaceStack st1) \<and>
        (\<exists>e. extra st1 = ENum e \<and> e < length (listSpaceStack st1))"
  proof (cases "pos strm = 0")
    case False
    with list(1) have "st1 = ?st0"
      by simp
    with list(2) assms(3,5) show ?thesis
      by auto
  next
    case True
    with list(1) have ls: "lineStart strm ?st0 = Continue st1"
      by simp
    with lineStart_Continue [where strm = strm and st = ?st0] list(2)
    have "(listSpaceStack st1 = rebuildStack (listSpaceStack st) (indentation strm) \<and>
           extra st1 = ENum 0) \<or>
          (listSpaceStack st = [] \<and> inside st = Some listSpace)"
      by auto
    then show ?thesis
    proof
      assume "listSpaceStack st1 = rebuildStack (listSpaceStack st) (indentation strm) \<and>
           extra st1 = ENum 0"
      with assms(3) show ?thesis
        by (simp add: rebuildStack_ok rebuildStack_nonempty)
    next
      assume "listSpaceStack st = [] \<and> inside st = Some listSpace"
      with assms(5) show ?thesis
        by simp
    qed
  qed
  then show ?thesis
    using list(3) assms(2) by (auto intro: token_listSpace_advances)
next
  case (inline st1)
  with assms(2) show ?thesis
    by (auto dest: token_inline_advances [OF sym])
qed

text \<open>
  The math delimiter of a reachable state is never empty; so on a reachable state the
  only call that can return without consuming is one inside the list indentation whose
  index lies beyond the stack.
\<close>

definition delim_ok :: "state \<Rightarrow> bool" where
  "delim_ok st = (case extra st of EStr d \<Rightarrow> d \<noteq> [] | _ \<Rightarrow> True)"

lemma delim_ok_same: "delim_ok st \<Longrightarrow> extra st' = extra st \<Longrightarrow> delim_ok st'"
  by (simp add: delim_ok_def)

lemma inline_math_delim:
  assumes "inline_math start strm st = Return (t, s', st')"
  shows "\<exists>d. extra st' = EStr d \<and> d \<noteq> []"
proof -
  from assms obtain n where n: "dollarsRE (rest strm) = Some n"
    and e: "extra st' = EStr (take n (rest strm))"
    by (auto simp: inline_math_def Let_def split: option.splits if_splits)
  from n have "0 < n" "rest strm \<noteq> []"
    by (auto simp: dollarsRE_def Let_def run_def split: if_splits)
  then have "take n (rest strm) \<noteq> []"
    by simp
  with e show ?thesis
    by simp
qed

lemma token_inline_delim:
  assumes "token_inline start strm st = (t, s', st')"
  shows "extra st' = extra st \<or> (\<exists>d. extra st' = EStr d \<and> d \<noteq> [])"
proof -
  define st1 where "st1 = (if atBeginning st \<and> (case peek strm of None \<Rightarrow> True | Some c \<Rightarrow> \<not> is_space c)
      then st\<lparr>atBeginning := False\<rparr> else st)\<lparr>combineTokens := Some True\<rparr>"
  have n1: "extra st1 = extra st"
    by (simp add: st1_def)
  note ti = assms(1) [unfolded token_inline_def Let_def, folded st1_def]
  show ?thesis
  proof (cases "inline_math start strm st1")
    case (Return r)
    show ?thesis
    proof (cases "r = (t, s', st')")
      case True
      with Return inline_math_delim show ?thesis
        by blast
    next
      case False
      with ti Return have "extra st' = extra st1"
        by (auto simp: inline_tableSep_def split: flow.splits option.splits if_splits)
      with n1 show ?thesis
        by simp
    qed
  next
    case (Continue s1)
    with ti have "extra st' = extra st1"
      by (auto simp: inline_tableSep_def inline_table_def Let_def
          split: flow.splits option.splits if_splits dest: inline_nstyle_mode)
    with n1 show ?thesis
      by simp
  qed
qed

lemma token_delim_ok:
  assumes "delim_ok st" and "token strm st = Some (tag, strm', st')"
  shows "delim_ok st'"
proof -
  let ?st0 = "st\<lparr>combineTokens := None\<rparr>"
  have cont: "delim_ok st1"
    if "(if pos strm = 0 then lineStart strm ?st0 else Continue ?st0) = Continue st1" for st1
    using that lineStart_mode [where strm = strm and st = ?st0] assms(1)
    by (auto simp: delim_ok_def split: if_splits)
  from assms(2) show ?thesis
  proof (cases rule: token_cases)
    case math
    from token_math_mode [OF math(2)] assms(1) show ?thesis
      by (simp add: delim_ok_def)
  next
    case fence
    from token_codeFence_mode [OF fence(2) [symmetric]] assms(1) show ?thesis
      by (simp add: delim_ok_def)
  next
    case start
    with lineStart_mode [where strm = strm and st = ?st0] assms(1) show ?thesis
      by (simp add: delim_ok_def)
  next
    case (list st1)
    from token_listSpace_mode [OF list(3)] show ?thesis
      by (cases "extra st'") (auto simp: delim_ok_def)
  next
    case (inline st1)
    from token_inline_delim [OF inline(3) [symmetric]] cont [OF inline(1)] show ?thesis
      by (auto simp: delim_ok_def)
  qed
qed

lemma reachable_delim_ok: "reachable st \<Longrightarrow> delim_ok st"
proof (induction rule: reachable.induct)
  case start
  show ?case by (simp add: delim_ok_def startState_def)
next
  case (tok st strm tag strm' st')
  then show ?case by (auto intro: token_delim_ok)
next
  case (blank st)
  from blank.IH show ?case
    by (rule delim_ok_same) (simp add: blankLine_def)
next
  case (copy st)
  from copy.IH show ?case
    by (rule delim_ok_same) (simp add: copyState_def)
qed

theorem reachable_token_advances:
  assumes "reachable st" and "\<not> eol strm"
    and "inside st = Some listSpace \<longrightarrow>
         (\<exists>e. extra st = ENum e \<and> e < length (listSpaceStack st))"
  shows "\<exists>tag strm' st'. token strm st = Some (tag, strm', st') \<and> pos strm < pos strm'"
proof -
  from reachable_token_returns [OF assms(1)] obtain tag strm' st'
    where t: "token strm st = Some (tag, strm', st')"
    by (metis prod_cases3)
  have m: "inside st = Some math \<longrightarrow> (\<exists>d. extra st = EStr d \<and> d \<noteq> [])"
    using reachable_typed [OF assms(1)] reachable_delim_ok [OF assms(1)]
    by (cases "extra st") (auto simp: typed_def delim_ok_def)
  from t assms(2) reachable_stack_ok [OF assms(1)] m assms(3) have "pos strm < pos strm'"
    by (rule token_advances)
  with t show ?thesis
    by blast
qed

subsection \<open>Delimiters, header lines and pipes\<close>

lemma headerLineRE_first:
  assumes "headerLineRE s"
  obtains c r where "s = c # r" "c = CHR ''-'' \<or> c = CHR ''=''"
    "list_all (\<lambda>x. x = CHR ''='') s = (c = CHR ''='')"
proof -
  from assms obtain c r where s: "s = c # r"
    by (cases s) (auto simp: headerLineRE_def)
  with assms have "c = CHR ''-'' \<or> c = CHR ''=''"
    by (auto simp: headerLineRE_def)
  moreover from assms s have "list_all (\<lambda>x. x = CHR ''='') s = (c = CHR ''='')"
    by (auto simp: headerLineRE_def)
  ultimately show ?thesis
    using that s by blast
qed

lemma try_delimiters_current:
  "try_delimiters ds strm = Some (s', b) \<Longrightarrow> (current strm s', b) \<in> set ds"
proof (induction ds strm rule: try_delimiters.induct)
  case (1 strm)
  then show ?case by simp
next
  case (2 d b' ds strm)
  show ?case
  proof (cases "match_str d strm")
    case None
    with 2 show ?thesis by simp
  next
    case (Some s1)
    with "2.prems" have e: "s' = s1" "b = b'"
      by simp_all
    from Some have "looking_at d strm" "s1 = advance (length d) strm"
      by (auto simp: match_str_def split: if_splits)
    then have "current strm s1 = d"
      by (simp add: current_def advance_def looking_at_def)
    with e show ?thesis by simp
  qed
qed

lemma delimiters_functional:
  "(d, b) \<in> set delimiters \<Longrightarrow> (d, b') \<in> set delimiters \<Longrightarrow> b = b'"
  by (auto simp: delimiters_def)

lemma toggle_pair:
  assumes "inline_simple ans1 strm1 st = Return (t1, strm1', st1)"
    and "nstyle st2 = nstyle st1"
    and "inline_simple ans2 strm2 st2 = Return (t2, strm2', st3)"
    and "current strm1 strm1' = current strm2 strm2'"
  shows "nstyle st3 = nstyle st"
proof -
  from assms(1) obtain b where b: "try_delimiters delimiters strm1 = Some (strm1', b)"
    and n1: "nstyle st1 = nstyle st XOR b"
    by (auto simp: inline_simple_def split: if_splits option.splits)
  from assms(3) obtain b' where b': "try_delimiters delimiters strm2 = Some (strm2', b')"
    and n3: "nstyle st3 = nstyle st2 XOR b'"
    by (auto simp: inline_simple_def split: if_splits option.splits)
  from try_delimiters_current [OF b] try_delimiters_current [OF b'] assms(4)
  have "b = b'"
    by (auto intro: delimiters_functional)
  with n1 n3 assms(2) show ?thesis
    by (simp add: xor.assoc)
qed

lemma header_line_no_fence:
  "rest strm = c # r \<Longrightarrow> c = CHR ''-'' \<or> c = CHR ''='' \<Longrightarrow> match_re fenceRE strm = None"
proof -
  assume r: "rest strm = c # r" and "c = CHR ''-'' \<or> c = CHR ''=''"
  then have "c \<noteq> backtick" by (auto simp: backtick_def)
  then show ?thesis by (simp add: match_re_def fenceRE_def r)
qed

lemma header_line_indentation:
  "string strm = c # r \<Longrightarrow> c = CHR ''-'' \<or> c = CHR ''='' \<Longrightarrow> indentation strm = 0"
proof -
  assume s: "string strm = c # r" and "c = CHR ''-'' \<or> c = CHR ''=''"
  then have "\<not> is_space c" by (auto simp: is_space_def)
  then show ?thesis by (simp add: indentation_def s)
qed

lemma show_nat_1: "show_nat (Suc 0) = ''1''"
  by code_simp

lemma show_nat_2: "show_nat 2 = ''2''"
  by code_simp

lemma show_level:
  "show_nat (if c = CHR ''='' then 1 else 2) = (if c = CHR ''='' then ''1'' else ''2'')"
  by (simp add: show_nat_1 show_nat_2)

lemma bare_pipe:
  assumes p: "0 < pos strm"
    and pk: "peek strm = Some (CHR ''|'')"
    and cm: "canMakeTable st"
    and nt: "\<not> is_set (table st)"
    and nl: "\<not> leadingPipeRE (string strm)"
    and ns: "\<not> sepNext strm"
  shows "map_option (\<lambda>(t, s, st'). (t, pos s, table st', tableCol st', tableRow st'))
           (token strm st) =
         Some (None, pos strm + 1, table st, tableCol st, tableRow st)"
proof -
  from pk obtain r where rest: "rest strm = CHR ''|'' # r"
    by (auto simp: peek_def split: list.splits)
  from cm have ins: "inside st = None \<or> inside st = Some nothing"
    by (simp add: canMakeTable_def falsy_def)
  define st1 where "st1 = (if atBeginning st then st\<lparr>combineTokens := None, atBeginning := False\<rparr>
      else st\<lparr>combineTokens := None\<rparr>)\<lparr>combineTokens := Some True\<rparr>"
  have cm1: "canMakeTable st1" "\<not> is_set (table st1)" "inside st1 \<noteq> Some tableTitleSep"
    using cm nt ins by (auto simp: st1_def canMakeTable_def)
  have "token_inline (pos strm) strm (st\<lparr>combineTokens := None\<rparr>) = (None, advance 1 strm, st1)"
    unfolding token_inline_def Let_def
    using cm1 nl ns
    by (simp add: pk is_space_def st1_def [symmetric] inline_tableSep_def match_re_def
        inlineCodeRE_def rest backtick_def inline_math_def dollarsRE_def run_def
        inline_table_def eat_def)
  moreover have "token strm st = Some (token_inline (pos strm) strm (st\<lparr>combineTokens := None\<rparr>))"
    using ins p by (auto simp: token_other_eq)
  ultimately show ?thesis
    by (simp add: advance_def st1_def)
qed

section \<open>Forward progress\<close>

text \<open>
  C1. A call of \<^verbatim>\<open>token\<close> on a line with a character left at the position should
  consume at least one character. In this scan it does not. The lines are \<^verbatim>\<open>" - a"\<close>,
  a line of one tab, an empty line and \<^verbatim>\<open>"x"\<close>, with tab size 4. The first line leaves
  the stack \<^verbatim>\<open>[1]\<close>. The tab of the second line is an indentation of 4, so the stack
  becomes \<^verbatim>\<open>[1, 3]\<close>; the tab is consumed as the first level, of width 1, and the
  line ends inside the list indentation with \<^verbatim>\<open>extra = 1\<close>. \<^verbatim>\<open>blankLine\<close> empties
  the stack and leaves \<^verbatim>\<open>inside\<close> and \<^verbatim>\<open>extra\<close>. On the fourth line the stack is
  empty and the line is no list item, so the stack is not rebuilt; the call finds no width
  at index 1, consumes nothing and returns a list indentation style at position 0, with
  the character \<^verbatim>\<open>x\<close> still to come. By \<open>reachable_token_advances\<close> above, an index
  beyond the stack is the only way for a call on a reachable state not to consume.
\<close>

theorem token_stalls:
  "scanLines 4 0 ['' - a'', [tab], []] startState =
     Some \<lparr>atBeginning = True, quoteLevel = 0, nstyle = 0, table = None, tableCol = 0,
           tableRow = 0, inside = Some listSpace, listSpaceStack = [],
           prevLineIsEmpty = True, extra = ENum 1, combineTokens = Some True\<rparr> \<and>
   \<not> eol \<lparr>string = ''x'', pos = 0, tabSize = 4, line = 3, lookAhead1 = None\<rparr> \<and>
   token \<lparr>string = ''x'', pos = 0, tabSize = 4, line = 3, lookAhead1 = None\<rparr>
     \<lparr>atBeginning = True, quoteLevel = 0, nstyle = 0, table = None, tableCol = 0,
      tableRow = 0, inside = Some listSpace, listSpaceStack = [],
      prevLineIsEmpty = True, extra = ENum 1, combineTokens = Some True\<rparr> =
     Some (Some ''hmd-list-indent hmd-list-indent-2'',
           \<lparr>string = ''x'', pos = 0, tabSize = 4, line = 3, lookAhead1 = None\<rparr>,
           \<lparr>atBeginning = True, quoteLevel = 0, nstyle = 0, table = None, tableCol = 0,
            tableRow = 0, inside = None, listSpaceStack = [],
            prevLineIsEmpty = False, extra = ENull, combineTokens = Some True\<rparr>)"
  by code_simp

section \<open>Copies of the state\<close>

text \<open>
  C2, as the code has it. The copy agrees with the state on each of the ten fields that
  \<^verbatim>\<open>startState\<close> defines, and has no \<^verbatim>\<open>combineTokens\<close>. On objects: the copy read
  from the new store is the copy of the state read from the old one, its array is at
  another address, and a mutation of either array leaves what the other object reads
  unchanged.
\<close>

theorem copyState_independent:
  assumes "listSpaceStack s < length h"
    and "copyState_obj h s = (c, h')"
  shows "copyState t = t\<lparr>combineTokens := None\<rparr> \<and>
         load h' c = copyState (load h s) \<and>
         load h' s = load h s \<and>
         listSpaceStack c \<noteq> listSpaceStack s \<and>
         load (write_stack h' c v) s = load h s \<and>
         load (write_stack h' s v) c = load h' c"
proof -
  from assms(2) have c: "listSpaceStack c = length h" and h': "h' = h @ [h ! listSpaceStack s]"
    by (auto simp: copyState_obj_def)
  have scalars: "atBeginning c = atBeginning s" "quoteLevel c = quoteLevel s"
    "nstyle c = nstyle s" "table c = table s" "tableCol c = tableCol s"
    "tableRow c = tableRow s" "inside c = inside s" "prevLineIsEmpty c = prevLineIsEmpty s"
    "extra c = extra s" "combineTokens c = None"
    using assms(2) by (auto simp: copyState_obj_def)
  have 1: "copyState t = t\<lparr>combineTokens := None\<rparr>"
    by (simp add: copyState_def)
  have 2: "load h' c = copyState (load h s)"
    by (simp add: load_def copyState_def scalars c h')
  have 3: "load h' s = load h s"
    using assms(1) by (simp add: load_def h' nth_append)
  have 4: "listSpaceStack c \<noteq> listSpaceStack s"
    using assms(1) c by simp
  have 5: "load (write_stack h' c v) s = load h s"
    using assms(1) by (simp add: load_def write_stack_def c h' nth_append)
  have 6: "load (write_stack h' s v) c = load h' c"
    using assms(1) by (simp add: load_def write_stack_def c h' nth_append list_update_append)
  from 1 2 3 4 5 6 show ?thesis
    by blast
qed

theorem copyState_independent_witness:
  "copyState_obj [[2, 4]] (start_obj 0) = (start_obj 1, [[2, 4], [2, 4]]) \<and>
   load [[2, 4], [2, 4]] (start_obj 1) = copyState (load [[2, 4]] (start_obj 0)) \<and>
   listSpaceStack (load [[2, 4], [2, 4]] (start_obj 1)) = [2, 4] \<and>
   load (write_stack [[2, 4], [2, 4]] (start_obj 1) [2, 4, 1]) (start_obj 0) =
     load [[2, 4]] (start_obj 0) \<and>
   listSpaceStack (load (write_stack [[2, 4], [2, 4]] (start_obj 1) [2, 4, 1]) (start_obj 1)) =
     [2, 4, 1]"
proof -
  have a: "listSpaceStack (start_obj 0) < length [[2, 4 :: int]]"
    by (simp add: start_obj_def)
  have b: "copyState_obj [[2, 4]] (start_obj 0) = (start_obj 1, [[2, 4], [2, 4]])"
    by (simp add: copyState_obj_def start_obj_def)
  have d: "listSpaceStack (load [[2, 4], [2, 4]] (start_obj 1)) = [2, 4]"
    "listSpaceStack (load (write_stack [[2, 4], [2, 4]] (start_obj 1) [2, 4, 1]) (start_obj 1)) =
       [2, 4, 1]"
    by (simp_all add: load_def write_stack_def start_obj_def)
  from copyState_independent [OF a b, of undefined "[2, 4, 1]"] b d show ?thesis
    by simp
qed

text \<open>
  The copy of a state whose \<^verbatim>\<open>combineTokens\<close> is set does not carry it: after the
  token of an opening code fence the field is true, and the copy has none.
\<close>

theorem copyState_drops_combineTokens:
  "token \<lparr>string = [backtick, backtick, backtick], pos = 0, tabSize = 4, line = 0,
          lookAhead1 = None\<rparr> startState =
     Some (Some (codeblock_bg @ '' line-HyperMD-codeblock-begin''),
           \<lparr>string = [backtick, backtick, backtick], pos = 3, tabSize = 4, line = 0,
            lookAhead1 = None\<rparr>,
           startState\<lparr>inside := Some codeFence, combineTokens := Some True\<rparr>) \<and>
   copyState (startState\<lparr>inside := Some codeFence, combineTokens := Some True\<rparr>) \<noteq>
     startState\<lparr>inside := Some codeFence, combineTokens := Some True\<rparr> \<and>
   combineTokens (copyState (startState\<lparr>inside := Some codeFence, combineTokens := Some True\<rparr>)) =
     None"
  by code_simp

section \<open>Blank lines\<close>

text \<open>
  C3. After \<^verbatim>\<open>blankLine\<close> the quote level, the table column and the table row are 0, the
  list stack is empty, the table identifier is null, the style mask (indeed all of
  \<^verbatim>\<open>nstyle\<close>) is 0, and \<^verbatim>\<open>atBeginning\<close> and \<^verbatim>\<open>prevLineIsEmpty\<close> are true. The call
  returns the code block background style exactly when the state was inside a code fence,
  and null otherwise.
\<close>

theorem blankLine_resets:
  "quoteLevel (snd (blankLine s)) = 0 \<and>
   listSpaceStack (snd (blankLine s)) = [] \<and>
   table (snd (blankLine s)) = None \<and>
   tableCol (snd (blankLine s)) = 0 \<and>
   tableRow (snd (blankLine s)) = 0 \<and>
   inlineStyleMask (snd (blankLine s)) = 0 \<and>
   nstyle (snd (blankLine s)) = 0 \<and>
   atBeginning (snd (blankLine s)) \<and>
   prevLineIsEmpty (snd (blankLine s)) \<and>
   fst (blankLine s) = (if inside s = Some codeFence then Some codeblock_bg else None) \<and>
   (fst (blankLine s) = Some codeblock_bg) = (inside s = Some codeFence)"
  by (simp add: blankLine_def inlineStyleMask_def)

section \<open>Links and footnotes\<close>

text \<open>
  C4. From the start state, with no link open: \<^verbatim>\<open>[^1]: note\<close> enters the footnote name
  state on the bracket and leaves it after \<^verbatim>\<open>]:\<close>; \<^verbatim>\<open>[text](url)\<close> enters the link
  text state on the bracket, the link URL state after the closing bracket, and no link
  after the parenthesis; \<^verbatim>\<open>please see [page1] to continue\<close> enters the bare link state
  on the bracket and leaves it after the closing bracket; and \<^verbatim>\<open>[^ref]\<close>, in the
  middle of a line or alone, enters the footnote reference lead state on the bracket, the
  footnote reference state after the caret, and no link after the closing bracket.
\<close>

theorem link_transitions:
  "link_trace ''[^1]: note'' =
     Some [(''['', FOOTNOTE_NAME), (''^'', FOOTNOTE_NAME), (''1'', FOOTNOTE_NAME),
           ('']:'', 0), ('' note'', 0)] \<and>
   link_trace ''[text](url)'' =
     Some [(''['', LINK), (''text'', LINK), ('']'', LINK_URL), (''('', LINK_URL),
           (''url'', LINK_URL), ('')'', 0)] \<and>
   link_trace ''please see [page1] to continue'' =
     Some [(''please see '', 0), (''['', BARELINK), (''page1'', BARELINK), ('']'', 0),
           ('' to continue'', 0)] \<and>
   link_trace ''see [^ref] here'' =
     Some [(''see '', 0), (''['', FOOTREF_BEGIN), (''^'', FOOTREF), (''ref'', FOOTREF),
           ('']'', 0), ('' here'', 0)] \<and>
   link_trace ''[^ref]'' =
     Some [(''['', FOOTREF_BEGIN), (''^'', FOOTREF), (''ref'', FOOTREF), ('']'', 0)]"
  by code_simp

section \<open>Setext header underlines\<close>

text \<open>
  C5, as the code has it. The code tests the line as it is, not trimmed, and only outside
  math and code fences. When \<^verbatim>\<open>token\<close> is called at column 0, outside math and a code
  fence, on a line that consists of three or more \<^verbatim>\<open>-\<close> or of three or more \<^verbatim>\<open>=\<close>
  and the previous line was not blank, the call consumes the whole line and returns the
  header line style, of level 1 for \<^verbatim>\<open>=\<close> and of level 2 for \<^verbatim>\<open>-\<close>.
\<close>

theorem setext_underline:
  assumes p0: "pos strm = 0"
    and h: "headerLineRE (string strm)"
    and np: "\<not> prevLineIsEmpty st"
    and nm: "inside st \<noteq> Some math"
    and nf: "inside st \<noteq> Some codeFence"
  shows "map_option (\<lambda>(t, s, st'). (t, pos s)) (token strm st) =
         Some (Some (''formatting line-HyperMD-header-line line-HyperMD-header-line-'' @
                     (if list_all (\<lambda>c. c = CHR ''='') (string strm) then ''1'' else ''2'')),
               length (string strm))"
proof -
  from h obtain c r where s: "string strm = c # r" and c: "c = CHR ''-'' \<or> c = CHR ''=''"
    and lv: "list_all (\<lambda>x. x = CHR ''='') (string strm) = (c = CHR ''='')"
    by (rule headerLineRE_first)
  have rest: "rest strm = c # r"
    by (simp add: rest_def p0 s)
  have fence: "match_re fenceRE strm = None"
    using rest c by (rule header_line_no_fence)
  have ind: "indentation strm = 0"
    using s c by (rule header_line_indentation)
  have ch: "(charAt (string strm) 0 = ''='') = (c = CHR ''='')"
    by (simp add: charAt_def s)
  have "lineStart strm (st\<lparr>combineTokens := None\<rparr>) =
        Return (Some (''formatting line-HyperMD-header-line line-HyperMD-header-line-'' @
                      show_nat (if c = CHR ''='' then 1 else 2)),
                skipToEnd strm,
                (if is_set (table st) then
                   (if tableRow st + 1 = 1 \<and> tableTitleSepRE (string strm)
                    then st\<lparr>combineTokens := None, atBeginning := True, tableCol := 0,
                            tableRow := tableRow st + 1, inside := Some tableTitleSep\<rparr>
                    else st\<lparr>combineTokens := None, atBeginning := True, tableCol := 0,
                            tableRow := tableRow st + 1, inside := None\<rparr>)
                 else st\<lparr>combineTokens := None, atBeginning := True\<rparr>))"
    unfolding lineStart_def Let_def fence ind
    using h np by (simp add: ch)
  then show ?thesis
    using nm nf by (simp add: token_other_eq p0 lv skipToEnd_def show_level)
qed

theorem setext_underline_witness:
  "pos (line_stream ''==='') = 0 \<and> headerLineRE (string (line_stream ''==='')) \<and>
   \<not> prevLineIsEmpty startState \<and>
   map_option (\<lambda>(t, s, st'). (t, pos s)) (token (line_stream ''==='') startState) =
     Some (Some ''formatting line-HyperMD-header-line line-HyperMD-header-line-1'', 3) \<and>
   map_option (\<lambda>(t, s, st'). (t, pos s)) (token (line_stream ''----'') startState) =
     Some (Some ''formatting line-HyperMD-header-line line-HyperMD-header-line-2'', 4)"
proof -
  have a: "pos (line_stream ''==='') = 0" "headerLineRE (string (line_stream ''===''))"
    "pos (line_stream ''----'') = 0" "headerLineRE (string (line_stream ''----''))"
    by (simp_all add: line_stream_def headerLineRE_def)
  have b: "\<not> prevLineIsEmpty startState" "inside startState \<noteq> Some math"
    "inside startState \<noteq> Some codeFence"
    by (simp_all add: startState_def)
  have e: "(if list_all (\<lambda>c. c = CHR ''='') (string (line_stream ''==='')) then ''1'' else ''2'') = ''1''"
    "(if list_all (\<lambda>c. c = CHR ''='') (string (line_stream ''----'')) then ''1'' else ''2'') = ''2''"
    "length (string (line_stream ''==='')) = 3" "length (string (line_stream ''----'')) = 4"
    by (simp_all add: line_stream_def)
  from setext_underline [OF a(1) a(2) b] setext_underline [OF a(3) a(4) b] a b
  show ?thesis
    unfolding e by simp
qed

text \<open>
  The line \<^verbatim>\<open>"--- "\<close>, with a space at its end, matches after trimming and follows a
  line that was not blank, but the call returns no style for it.
\<close>

theorem setext_untrimmed:
  "headerLineRE (trim ''--- '') \<and> \<not> prevLineIsEmpty startState \<and>
   token (line_stream ''--- '') startState =
     Some (None,
           \<lparr>string = ''--- '', pos = 4, tabSize = 4, line = 0, lookAhead1 = None\<rparr>,
           \<lparr>atBeginning = False, quoteLevel = 0, nstyle = 0, table = None, tableCol = 0,
            tableRow = 0, inside = Some nothing, listSpaceStack = [],
            prevLineIsEmpty = False, extra = ENull, combineTokens = Some True\<rparr>)"
  by code_simp

section \<open>Tables\<close>

text \<open>
  C6. From the start state, the first call on the line \<^verbatim>\<open>|a|b|\<close> of number \<open>n\<close>,
  followed by the line \<^verbatim>\<open>|-|-|\<close>, consumes the pipe, sets the table identifier to
  \<^verbatim>\<open>T\<close> followed by the line number, and returns a style with the table title and the
  marker of a separator row in it; the scan of both lines ends in the table, on the
  separator row. Conversely, with no inline style, no list and no block mode, outside a
  table: a pipe on a line that does not start with a pipe, when the following line is not
  a title separator, is consumed with no style, and the table fields stay as they were.
\<close>

theorem table_detection:
  assumes p: "0 < pos strm"
    and pk: "peek strm = Some (CHR ''|'')"
    and cm: "canMakeTable st"
    and nt: "\<not> is_set (table st)"
    and nl: "\<not> leadingPipeRE (string strm)"
    and ns: "\<not> sepNext strm"
  shows "token \<lparr>string = ''|a|b|'', pos = 0, tabSize = ts, line = n,
                lookAhead1 = Some ''|-|-|''\<rparr> startState =
           Some (Some (''line-HyperMD-table-title line-HyperMD-table-title-has_rowsep '' @
                       ''line-HyperMD-table_T'' @ show_nat n @
                       '' line-HyperMD-table-row line-HyperMD-table-row-0 '' @
                       ''hmd-table-sep hmd-table-sep-0 ''),
                 \<lparr>string = ''|a|b|'', pos = 1, tabSize = ts, line = n,
                  lookAhead1 = Some ''|-|-|''\<rparr>,
                 startState\<lparr>atBeginning := False, table := Some (''T'' @ show_nat n),
                            tableCol := 1, combineTokens := Some True\<rparr>) \<and>
         scanLines 4 0 [''|a|b|'', ''|-|-|''] startState =
           Some (startState\<lparr>atBeginning := False, table := Some ''T0'', tableRow := 1,
                            inside := Some tableTitleSep, combineTokens := Some True\<rparr>) \<and>
         map_option (\<lambda>(t, s, st'). (t, pos s, table st', tableCol st', tableRow st'))
           (token strm st) =
           Some (None, pos strm + 1, table st, tableCol st, tableRow st)"
proof -
  have sep: "tableTitleSepRE ''|-|-|''"
    by code_simp
  have lead: "leadingPipeRE ''|a|b|''"
    by code_simp
  have nolist: "listRE ''|a|b|'' = None"
    by code_simp
  have z: "show_nat 0 = ''0''"
    by code_simp
  have ls: "lineStart \<lparr>string = ''|a|b|'', pos = 0, tabSize = ts, line = n,
                lookAhead1 = Some ''|-|-|''\<rparr> (startState\<lparr>combineTokens := None\<rparr>) =
            Continue (startState\<lparr>combineTokens := None\<rparr>)"
    by (simp add: lineStart_def Let_def startState_def is_set_def match_re_def rest_def
        fenceRE_def backtick_def indentation_def is_space_def headerLineRE_def quoteRE_def
        headerRE_def run_def nolist)
  have il: "token_inline 0 \<lparr>string = ''|a|b|'', pos = 0, tabSize = ts, line = n,
                lookAhead1 = Some ''|-|-|''\<rparr> (startState\<lparr>combineTokens := None\<rparr>) =
            (Some (''line-HyperMD-table-title line-HyperMD-table-title-has_rowsep '' @
                       ''line-HyperMD-table_T'' @ show_nat n @
                       '' line-HyperMD-table-row line-HyperMD-table-row-0 '' @
                       ''hmd-table-sep hmd-table-sep-0 ''),
                 \<lparr>string = ''|a|b|'', pos = 1, tabSize = ts, line = n,
                  lookAhead1 = Some ''|-|-|''\<rparr>,
                 startState\<lparr>atBeginning := False, table := Some (''T'' @ show_nat n),
                            tableCol := 1, combineTokens := Some True\<rparr>)"
    by (simp add: token_inline_def Let_def startState_def peek_def rest_def is_space_def
        inline_tableSep_def match_re_def inlineCodeRE_def backtick_def inline_math_def
        dollarsRE_def run_def inline_table_def canMakeTable_def falsy_def eat_def
        advance_def is_set_def sepNext_def sep lead z)
  have 1: "token \<lparr>string = ''|a|b|'', pos = 0, tabSize = ts, line = n,
                lookAhead1 = Some ''|-|-|''\<rparr> startState =
           Some (Some (''line-HyperMD-table-title line-HyperMD-table-title-has_rowsep '' @
                       ''line-HyperMD-table_T'' @ show_nat n @
                       '' line-HyperMD-table-row line-HyperMD-table-row-0 '' @
                       ''hmd-table-sep hmd-table-sep-0 ''),
                 \<lparr>string = ''|a|b|'', pos = 1, tabSize = ts, line = n,
                  lookAhead1 = Some ''|-|-|''\<rparr>,
                 startState\<lparr>atBeginning := False, table := Some (''T'' @ show_nat n),
                            tableCol := 1, combineTokens := Some True\<rparr>)"
  proof -
    have i: "inside startState = Some nothing"
      by (simp add: startState_def)
    then have "inside startState \<noteq> Some math" "inside startState \<noteq> Some codeFence"
      by simp_all
    then have "token \<lparr>string = ''|a|b|'', pos = 0, tabSize = ts, line = n,
                lookAhead1 = Some ''|-|-|''\<rparr> startState =
          (case (if pos \<lparr>string = ''|a|b|'', pos = 0, tabSize = ts, line = n,
                         lookAhead1 = Some ''|-|-|''\<rparr> = 0
                 then lineStart \<lparr>string = ''|a|b|'', pos = 0, tabSize = ts, line = n,
                        lookAhead1 = Some ''|-|-|''\<rparr> (startState\<lparr>combineTokens := None\<rparr>)
                 else Continue (startState\<lparr>combineTokens := None\<rparr>)) of
             Return r \<Rightarrow> Some r
           | Continue st1 \<Rightarrow>
               if inside st1 = Some listSpace
               then token_listSpace \<lparr>string = ''|a|b|'', pos = 0, tabSize = ts, line = n,
                      lookAhead1 = Some ''|-|-|''\<rparr> st1
               else Some (token_inline
                      (pos \<lparr>string = ''|a|b|'', pos = 0, tabSize = ts, line = n,
                            lookAhead1 = Some ''|-|-|''\<rparr>)
                      \<lparr>string = ''|a|b|'', pos = 0, tabSize = ts, line = n,
                      lookAhead1 = Some ''|-|-|''\<rparr> st1))"
      by (rule token_other_eq)
    then show ?thesis
      by (simp add: ls il i)
  qed
  have 2: "scanLines 4 0 [''|a|b|'', ''|-|-|''] startState =
           Some (startState\<lparr>atBeginning := False, table := Some ''T0'', tableRow := 1,
                            inside := Some tableTitleSep, combineTokens := Some True\<rparr>)"
    by code_simp
  from 1 2 bare_pipe [OF p pk cm nt nl ns] show ?thesis
    by blast
qed

theorem table_detection_witness:
  "canMakeTable (startState\<lparr>atBeginning := False\<rparr>) \<and>
   peek ((line_stream ''a|b'')\<lparr>pos := 1\<rparr>) = Some (CHR ''|'') \<and>
   token ((line_stream ''a|b'')\<lparr>pos := 1\<rparr>) (startState\<lparr>atBeginning := False\<rparr>) =
     Some (None, (line_stream ''a|b'')\<lparr>pos := 2\<rparr>,
           startState\<lparr>atBeginning := False, combineTokens := Some True\<rparr>) \<and>
   map_option (\<lambda>(t, s, st'). (t, pos s, table st', tableCol st', tableRow st'))
     (token ((line_stream ''a|b'')\<lparr>pos := 1\<rparr>) (startState\<lparr>atBeginning := False\<rparr>)) =
     Some (None, 2, None, 0, 0)"
proof -
  have a: "0 < pos ((line_stream ''a|b'')\<lparr>pos := 1\<rparr>)"
    "peek ((line_stream ''a|b'')\<lparr>pos := 1\<rparr>) = Some (CHR ''|'')"
    "canMakeTable (startState\<lparr>atBeginning := False\<rparr>)"
    "\<not> is_set (table (startState\<lparr>atBeginning := False\<rparr>))"
    "\<not> leadingPipeRE (string ((line_stream ''a|b'')\<lparr>pos := 1\<rparr>))"
    "\<not> sepNext ((line_stream ''a|b'')\<lparr>pos := 1\<rparr>)"
    by code_simp+
  have b: "token ((line_stream ''a|b'')\<lparr>pos := 1\<rparr>) (startState\<lparr>atBeginning := False\<rparr>) =
     Some (None, (line_stream ''a|b'')\<lparr>pos := 2\<rparr>,
           startState\<lparr>atBeginning := False, combineTokens := Some True\<rparr>)"
    by code_simp
  from table_detection [OF a] a b show ?thesis
    by (simp add: line_stream_def startState_def)
qed

section \<open>The list stack\<close>

text \<open>
  C7. The rebuild of the stack turns \<^verbatim>\<open>[2, 4]\<close> with indentation 2 into \<^verbatim>\<open>[2]\<close>
  and with indentation 7 into \<^verbatim>\<open>[2, 4, 1]\<close>; and so does the first call of
  \<^verbatim>\<open>token\<close> on a line indented by 2 or by 7 spaces, after the two lines of a list that
  leave the stack \<^verbatim>\<open>[2, 4]\<close>.
\<close>

theorem list_indent_rebuild:
  "rebuildStack [2, 4] 2 = [2] \<and>
   rebuildStack [2, 4] 7 = [2, 4, 1] \<and>
   map_option listSpaceStack (scanLines 4 0 [''  - a'', ''      - b''] startState) =
     Some [2, 4] \<and>
   map_option (\<lambda>st. map_option (\<lambda>(t, s, st'). (indentation (line_stream ''  - c''), listSpaceStack st'))
                 (token (line_stream ''  - c'') st))
     (scanLines 4 0 [''  - a'', ''      - b''] startState) = Some (Some (2, [2])) \<and>
   map_option (\<lambda>st. map_option (\<lambda>(t, s, st'). (indentation (line_stream ''       - c''), listSpaceStack st'))
                 (token (line_stream ''       - c'') st))
     (scanLines 4 0 [''  - a'', ''      - b''] startState) = Some (Some (7, [2, 4, 1]))"
  by code_simp

section \<open>Emphasis\<close>

text \<open>
  C8. The scan of \<^verbatim>\<open>*a*\<close> from the start state sets the emphasis bit on the first
  \<^verbatim>\<open>*\<close>, keeps the mask while it consumes \<^verbatim>\<open>a\<close> with no style, and clears the bit
  on the second \<^verbatim>\<open>*\<close>: the mask ends at 0. In general, when the stage of the simple
  styles toggles on a delimiter, and toggles again on the same delimiter from the mask that
  the first toggle left, \<^verbatim>\<open>nstyle\<close> is back at its value before the first.
\<close>

theorem emphasis_toggle:
  assumes "inline_simple ans1 strm1 st = Return (t1, strm1', st1)"
    and "nstyle st2 = nstyle st1"
    and "inline_simple ans2 strm2 st2 = Return (t2, strm2', st3)"
    and "current strm1 strm1' = current strm2 strm2'"
  shows "style_trace ''*a*'' = Some [(''*'', Some [], EM), (''a'', None, EM), (''*'', Some [], 0)] \<and>
         nstyle st3 = nstyle st"
proof -
  have "style_trace ''*a*'' = Some [(''*'', Some [], EM), (''a'', None, EM), (''*'', Some [], 0)]"
    by code_simp
  with toggle_pair [OF assms] show ?thesis
    by simp
qed

theorem emphasis_toggle_witness:
  "inline_simple [] (line_stream ''*a*'') startState =
     Return (Some [], (line_stream ''*a*'')\<lparr>pos := 1\<rparr>, startState\<lparr>nstyle := EM\<rparr>) \<and>
   inline_simple [] ((line_stream ''*a*'')\<lparr>pos := 2\<rparr>) (startState\<lparr>nstyle := EM\<rparr>) =
     Return (Some [], (line_stream ''*a*'')\<lparr>pos := 3\<rparr>, startState\<lparr>nstyle := 0\<rparr>) \<and>
   current (line_stream ''*a*'') ((line_stream ''*a*'')\<lparr>pos := 1\<rparr>) = ''*'' \<and>
   current ((line_stream ''*a*'')\<lparr>pos := 2\<rparr>) ((line_stream ''*a*'')\<lparr>pos := 3\<rparr>) = ''*'' \<and>
   nstyle (startState\<lparr>nstyle := 0\<rparr>) = nstyle startState"
proof -
  have a: "inline_simple [] (line_stream ''*a*'') startState =
     Return (Some [], (line_stream ''*a*'')\<lparr>pos := 1\<rparr>, startState\<lparr>nstyle := EM\<rparr>)"
    by code_simp
  have b: "inline_simple [] ((line_stream ''*a*'')\<lparr>pos := 2\<rparr>) (startState\<lparr>nstyle := EM\<rparr>) =
     Return (Some [], (line_stream ''*a*'')\<lparr>pos := 3\<rparr>, startState\<lparr>nstyle := 0\<rparr>)"
    by code_simp
  have c: "current (line_stream ''*a*'') ((line_stream ''*a*'')\<lparr>pos := 1\<rparr>) = ''*''"
    "current ((line_stream ''*a*'')\<lparr>pos := 2\<rparr>) ((line_stream ''*a*'')\<lparr>pos := 3\<rparr>) = ''*''"
    by code_simp+
  from emphasis_toggle [OF a refl b] a b c show ?thesis
    by simp
qed

section \<open>The two axes of \<^verbatim>\<open>nstyle\<close>\<close>

text \<open>
  A call of \<^verbatim>\<open>token\<close> changes the link state or the style bits, never both: after
  any call either the link state is what it was, or the style mask, and with it each of
  the bits of strikethrough, emphasis, strong and escape, is what it was.
\<close>

theorem token_axes:
  assumes "token strm st = Some (tag, strm', st')"
  shows "linkState st' = linkState st \<or>
         (inlineStyleMask st' = inlineStyleMask st \<and>
          nstyle st' AND DEL = nstyle st AND DEL \<and>
          nstyle st' AND EM = nstyle st AND EM \<and>
          nstyle st' AND STRONG = nstyle st AND STRONG \<and>
          nstyle st' AND ESCAPE = nstyle st AND ESCAPE)"
proof -
  have cont: "nstyle st1 = nstyle st"
    if "(if pos strm = 0 then lineStart strm (st\<lparr>combineTokens := None\<rparr>)
         else Continue (st\<lparr>combineTokens := None\<rparr>)) = Continue st1" for st1
    using that lineStart_nstyle [where strm = strm and st = "st\<lparr>combineTokens := None\<rparr>"]
    by (auto split: if_splits)
  have bits: "nstyle st' AND b = nstyle st AND b"
    if m: "inlineStyleMask st' = inlineStyleMask st" and b: "style_mask AND b = b" for b
  proof -
    have "nstyle st' AND b = (nstyle st' AND style_mask) AND b"
      by (simp add: and.assoc b)
    also have "\<dots> = (nstyle st AND style_mask) AND b"
      using m by (simp add: inlineStyleMask_def)
    also have "\<dots> = nstyle st AND b"
      by (simp add: and.assoc b)
    finally show ?thesis .
  qed
  have masks: "style_mask AND DEL = DEL" "style_mask AND EM = EM"
    "style_mask AND STRONG = STRONG" "style_mask AND ESCAPE = ESCAPE"
    by (simp_all add: style_mask_def DEL_def EM_def STRONG_def ESCAPE_def)
  have "linkState st' = linkState st \<or> inlineStyleMask st' = inlineStyleMask st"
    using assms
  proof (cases rule: token_cases)
    case math
    then have "nstyle st' = nstyle st"
      by (auto dest: token_math_nstyle)
    then show ?thesis
      by (simp add: linkState_def)
  next
    case fence
    then have "nstyle st' = nstyle st"
      by (auto dest: token_codeFence_nstyle [OF sym])
    then show ?thesis
      by (simp add: linkState_def)
  next
    case start
    then have "nstyle st' = nstyle st"
      using lineStart_nstyle [where strm = strm and st = "st\<lparr>combineTokens := None\<rparr>"]
      by simp
    then show ?thesis
      by (simp add: linkState_def)
  next
    case (list st1)
    then have "nstyle st' = nstyle st"
      using cont [of st1] by (auto dest: token_listSpace_nstyle)
    then show ?thesis
      by (simp add: linkState_def)
  next
    case (inline st1)
    from inline(3) have
      "linkState st' = linkState st1 \<or> inlineStyleMask st' = inlineStyleMask st1"
      by (auto dest: token_inline_frame [OF sym])
    with cont [OF inline(1)] show ?thesis
      by (simp add: linkState_def inlineStyleMask_def)
  qed
  then show ?thesis
    using bits masks by blast
qed

theorem token_axes_witness:
  "token (line_stream ''[text](url)'') startState =
     Some (Some ''hmd-link '', (line_stream ''[text](url)'')\<lparr>pos := 1\<rparr>,
           startState\<lparr>atBeginning := False, nstyle := LINK, combineTokens := Some True\<rparr>) \<and>
   linkState (startState\<lparr>atBeginning := False, nstyle := LINK, combineTokens := Some True\<rparr>) = LINK \<and>
   linkState startState = 0 \<and>
   inlineStyleMask (startState\<lparr>atBeginning := False, nstyle := LINK, combineTokens := Some True\<rparr>) =
     inlineStyleMask startState \<and>
   token (line_stream ''*a*'') (startState\<lparr>nstyle := LINK\<rparr>) =
     Some (Some ''hmd-link '', (line_stream ''*a*'')\<lparr>pos := 1\<rparr>,
           startState\<lparr>atBeginning := False, nstyle := LINK OR EM, combineTokens := Some True\<rparr>) \<and>
   inlineStyleMask (startState\<lparr>atBeginning := False, nstyle := LINK OR EM,
                               combineTokens := Some True\<rparr>) = EM \<and>
   inlineStyleMask (startState\<lparr>nstyle := LINK\<rparr>) = 0 \<and>
   linkState (startState\<lparr>atBeginning := False, nstyle := LINK OR EM, combineTokens := Some True\<rparr>) =
     linkState (startState\<lparr>nstyle := LINK\<rparr>)"
proof -
  have a: "token (line_stream ''[text](url)'') startState =
     Some (Some ''hmd-link '', (line_stream ''[text](url)'')\<lparr>pos := 1\<rparr>,
           startState\<lparr>atBeginning := False, nstyle := LINK, combineTokens := Some True\<rparr>)"
    by code_simp
  have b: "token (line_stream ''*a*'') (startState\<lparr>nstyle := LINK\<rparr>) =
     Some (Some ''hmd-link '', (line_stream ''*a*'')\<lparr>pos := 1\<rparr>,
           startState\<lparr>atBeginning := False, nstyle := LINK OR EM, combineTokens := Some True\<rparr>)"
    by code_simp
  have c: "linkState (startState\<lparr>atBeginning := False, nstyle := LINK, combineTokens := Some True\<rparr>) = LINK"
    "linkState startState = 0"
    "inlineStyleMask (startState\<lparr>atBeginning := False, nstyle := LINK OR EM,
                               combineTokens := Some True\<rparr>) = EM"
    "inlineStyleMask (startState\<lparr>nstyle := LINK\<rparr>) = 0"
    by code_simp+
  have d: "LINK \<noteq> 0" "EM \<noteq> 0"
    by (simp_all add: LINK_def EM_def)
  from token_axes [OF a] token_axes [OF b] a b c d show ?thesis
    by simp
qed

text \<open>
  C9. Within one call the link state and the style bits should change independently: a
  call that changes the link state leaves the style bits, a call that toggles a style bit
  or consumes an escaped character leaves the link state, and no call changes both. No
  call changes both (above), but the character after a backslash can change the link
  state: the link part of \<^verbatim>\<open>token\<close> runs before the escape part, against the note in the
  code that an escaped character is handled in the escape part. In the scan of
  \<^verbatim>\<open>[a\](b)\<close> the call on the escaped \<^verbatim>\<open>]\<close> runs with the escape bit set, is taken as
  the end of the link text and moves the link state to the link URL; the escape bit stays
  and is cleared on the \<^verbatim>\<open>(\<close> after it. In the scan of \<^verbatim>\<open>[a](b\))\<close> the escaped
  \<^verbatim>\<open>)\<close> closes the URL in the same way.
\<close>

theorem escaped_bracket_changes_link:
  "axes_trace (''[a'' @ [backslash] @ ''](b)'') =
     Some [(''['', Some ''hmd-link '', LINK, 0),
           (''a'', Some ''hmd-link '', LINK, 0),
           ([backslash], Some ''hmd-link hmd-escape hmd-escape-backslash '', LINK, ESCAPE),
           ('']'', Some ''hmd-escape hmd-link '', LINK_URL, ESCAPE),
           (''('', Some ''hmd-escape hmd-link-url '', LINK_URL, 0),
           (''b'', Some ''hmd-link-url '', LINK_URL, 0),
           ('')'', Some ''hmd-link-url '', 0, 0)] \<and>
   axes_trace (''[a](b'' @ [backslash] @ ''))'') =
     Some [(''['', Some ''hmd-link '', LINK, 0),
           (''a'', Some ''hmd-link '', LINK, 0),
           ('']'', Some ''hmd-link '', LINK_URL, 0),
           (''('', Some ''hmd-link-url '', LINK_URL, 0),
           (''b'', Some ''hmd-link-url '', LINK_URL, 0),
           ([backslash], Some ''hmd-link-url hmd-escape hmd-escape-backslash '', LINK_URL, ESCAPE),
           ('')'', Some ''hmd-escape hmd-link-url '', 0, ESCAPE),
           ('')'', Some ''hmd-escape '', 0, 0)] \<and>
   token ((line_stream (''[a'' @ [backslash] @ ''](b)''))\<lparr>pos := 3\<rparr>)
     (startState\<lparr>atBeginning := False, nstyle := LINK OR ESCAPE, combineTokens := Some True\<rparr>) =
     Some (Some ''hmd-escape hmd-link '',
           (line_stream (''[a'' @ [backslash] @ ''](b)''))\<lparr>pos := 4\<rparr>,
           startState\<lparr>atBeginning := False, nstyle := LINK_URL OR ESCAPE,
                      combineTokens := Some True\<rparr>)"
  by code_simp

section \<open>The widths of the list stack\<close>

text \<open>
  In every state reachable from the start state by calls of \<^verbatim>\<open>token\<close>,
  \<^verbatim>\<open>blankLine\<close> and \<^verbatim>\<open>copyState\<close>, the first width of the list stack is not
  negative and every width at index 1 or higher is positive. The rebuild of a stack
  is its first \<open>k\<close> levels, or those and one new level of positive width, or the single
  level of width 0, which is pushed only when nothing is kept and nothing is added. So
  whenever the state is inside the list indentation with an index of at least 1 that lies
  within the stack, the width to consume at that index is at least 1.
\<close>

theorem list_stack_invariant:
  assumes "reachable st"
  shows "stack_ok (listSpaceStack st) \<and>
         (\<forall>i. 1 \<le> i \<and> i < length (listSpaceStack st) \<longrightarrow> 0 < listSpaceStack st ! i) \<and>
         (\<forall>e. inside st = Some listSpace \<and> extra st = ENum e \<and> 1 \<le> e \<and>
               e < length (listSpaceStack st) \<longrightarrow>
               (\<exists>w. indent_at (listSpaceStack st) (Some e) = Some w \<and> 1 \<le> w)) \<and>
         (\<exists>k. (rebuildStack s ind = take k s \<and> take k s \<noteq> []) \<or>
               (\<exists>w. 0 < w \<and> rebuildStack s ind = take k s @ [w]) \<or>
               (rebuildStack s ind = [0] \<and> take k s = []))"
proof -
  have ok: "stack_ok (listSpaceStack st)"
    using assms by (rule reachable_stack_ok)
  have pos: "0 < listSpaceStack st ! i" if "1 \<le> i" "i < length (listSpaceStack st)" for i
  proof (cases "listSpaceStack st")
    case Nil
    with that show ?thesis by simp
  next
    case (Cons x r)
    with ok have "list_all (\<lambda>y. 0 < y) r"
      by (simp add: stack_ok_def)
    moreover from that Cons obtain j where "i = Suc j" "j < length r"
      by (cases i) auto
    ultimately show ?thesis
      using Cons by (simp add: list_all_length)
  qed
  have ind: "\<exists>w. indent_at (listSpaceStack st) (Some e) = Some w \<and> 1 \<le> w"
    if "1 \<le> e" "e < length (listSpaceStack st)" for e
    using pos [OF that] that by (simp add: indent_at_def)
  from ok pos ind rebuildStack_shape [of s ind] show ?thesis
    by blast
qed

theorem list_stack_invariant_witness:
  "reachable \<lparr>atBeginning = True, quoteLevel = 0, nstyle = 0, table = None, tableCol = 0,
              tableRow = 0, inside = Some listSpace, listSpaceStack = [2, 4, 1],
              prevLineIsEmpty = False, extra = ENum 1, combineTokens = Some True\<rparr> \<and>
   stack_ok [2, 4, 1] \<and> indent_at [2, 4, 1] (Some 1) = Some 4"
proof -
  have a: "scanLines 4 0 [''  - a'', ''      - b''] startState =
     Some \<lparr>atBeginning = False, quoteLevel = 0, nstyle = 0, table = None, tableCol = 0,
           tableRow = 0, inside = None, listSpaceStack = [2, 4],
           prevLineIsEmpty = False, extra = ENull, combineTokens = Some True\<rparr>"
    by code_simp
  have b: "token (line_stream ''       - c'')
     \<lparr>atBeginning = False, quoteLevel = 0, nstyle = 0, table = None, tableCol = 0,
      tableRow = 0, inside = None, listSpaceStack = [2, 4],
      prevLineIsEmpty = False, extra = ENull, combineTokens = Some True\<rparr> =
     Some (Some ''hmd-list-indent hmd-list-indent-1 line-HyperMD-list-line line-HyperMD-list-line-3'',
           (line_stream ''       - c'')\<lparr>pos := 2\<rparr>,
           \<lparr>atBeginning = True, quoteLevel = 0, nstyle = 0, table = None, tableCol = 0,
            tableRow = 0, inside = Some listSpace, listSpaceStack = [2, 4, 1],
            prevLineIsEmpty = False, extra = ENum 1, combineTokens = Some True\<rparr>)"
    by code_simp
  have r: "reachable \<lparr>atBeginning = True, quoteLevel = 0, nstyle = 0, table = None, tableCol = 0,
              tableRow = 0, inside = Some listSpace, listSpaceStack = [2, 4, 1],
              prevLineIsEmpty = False, extra = ENum 1, combineTokens = Some True\<rparr>"
    by (rule reachable.tok [OF scanLines_reachable [OF reachable.start a] b])
  from list_stack_invariant [OF r, of "[]" 0] r show ?thesis
    by (simp add: indent_at_def)
qed

text \<open>
  C10. In every reachable state the widths at index 1 or higher are positive, and whenever
  the state is inside the list indentation with an index of at least 1, the width to consume
  at that index should be at least 1. The widths are positive (above), but the index can lie
  beyond the stack: after the first three lines of the scan of C1 the state is inside the
  list indentation with index 1 and an empty stack, and there is no width to consume at
  the index.
\<close>

theorem stale_list_index:
  "map_option (\<lambda>st. (inside st, extra st, listSpaceStack st,
                      indent_at (listSpaceStack st) (Some 1)))
     (scanLines 4 0 ['' - a'', [tab], []] startState) =
   Some (Some listSpace, ENum 1, [], None)"
  by code_simp

end
